theory Spec2Isabelle
  imports Main "HOL-Library.AList"
begin

section \<open>Strings\<close>

text \<open>
  The scripts work on JavaScript strings. They are modelled as \<^typ>\<open>string\<close>, one
  \<^typ>\<open>char\<close> per code unit, which covers the code units below 256. The white space of
  \<^verbatim>\<open>String.prototype.trim\<close> and of the regular expression class \<^verbatim>\<open>\s\<close> in that range is
  tab, line feed, vertical tab, form feed, carriage return, space and no-break space.
\<close>

definition isSpace :: "char \<Rightarrow> bool" where
  "isSpace c = (c \<in> set [CHR 0x09, CHR 0x0A, CHR 0x0B, CHR 0x0C, CHR 0x0D, CHR 0x20, CHR 0xA0])"

text \<open>The class \<^verbatim>\<open>[\w-]\<close>: letters, digits, underscore and hyphen.\<close>

definition isWord :: "char \<Rightarrow> bool" where
  "isWord c = (c \<in> set ''abcdefghijklmnopqrstuvwxyzABCDEFGHIJKLMNOPQRSTUVWXYZ0123456789_'')"

definition isNameChar :: "char \<Rightarrow> bool" where
  "isNameChar c = (isWord c \<or> c = CHR ''-'')"

text \<open>The regular expression dot: any code unit but a line terminator.\<close>

definition isDot :: "char \<Rightarrow> bool" where
  "isDot c = (c \<noteq> CHR 0x0A \<and> c \<noteq> CHR 0x0D)"

definition trim :: "string \<Rightarrow> string" where
  "trim s = rev (dropWhile isSpace (rev (dropWhile isSpace s)))"

text \<open>
  \<^verbatim>\<open>toLowerCase\<close> on code units below 256: the letters A to Z and the accented capitals
  0xC0 to 0xDE (but the multiplication sign 0xD7) move up by 32.
\<close>

definition upperChars :: "char list" where
  "upperChars = ''ABCDEFGHIJKLMNOPQRSTUVWXYZ'' @
     [CHR 0xC0, CHR 0xC1, CHR 0xC2, CHR 0xC3, CHR 0xC4, CHR 0xC5, CHR 0xC6, CHR 0xC7, CHR 0xC8, CHR 0xC9, CHR 0xCA, CHR 0xCB, CHR 0xCC, CHR 0xCD, CHR 0xCE, CHR 0xCF, CHR 0xD0, CHR 0xD1, CHR 0xD2, CHR 0xD3, CHR 0xD4, CHR 0xD5, CHR 0xD6, CHR 0xD8, CHR 0xD9, CHR 0xDA, CHR 0xDB, CHR 0xDC, CHR 0xDD, CHR 0xDE]"

definition lowerChars :: "char list" where
  "lowerChars = ''abcdefghijklmnopqrstuvwxyz'' @
     [CHR 0xE0, CHR 0xE1, CHR 0xE2, CHR 0xE3, CHR 0xE4, CHR 0xE5, CHR 0xE6, CHR 0xE7, CHR 0xE8, CHR 0xE9, CHR 0xEA, CHR 0xEB, CHR 0xEC, CHR 0xED, CHR 0xEE, CHR 0xEF, CHR 0xF0, CHR 0xF1, CHR 0xF2, CHR 0xF3, CHR 0xF4, CHR 0xF5, CHR 0xF6, CHR 0xF8, CHR 0xF9, CHR 0xFA, CHR 0xFB, CHR 0xFC, CHR 0xFD, CHR 0xFE]"

definition lowerChar :: "char \<Rightarrow> char" where
  "lowerChar c = (case map_of (zip upperChars lowerChars) c of Some l \<Rightarrow> l | None \<Rightarrow> c)"

definition toLowerCase :: "string \<Rightarrow> string" where
  "toLowerCase s = map lowerChar s"

definition startsWith :: "string \<Rightarrow> string \<Rightarrow> bool" where
  "startsWith s p = (take (length p) s = p)"

section \<open>Tiers (validate-tokens.js)\<close>

datatype tier = Primitive | Semantic | Component | Base | Unknown

text \<open>\<^verbatim>\<open>ALLOWED_DEPS\<close>: the tiers a token of the given tier may reference.\<close>

fun ALLOWED_DEPS :: "tier \<Rightarrow> tier list" where
  "ALLOWED_DEPS Primitive = []"
| "ALLOWED_DEPS Semantic = [Primitive]"
| "ALLOWED_DEPS Component = [Semantic, Base]"
| "ALLOWED_DEPS Base = [Semantic]"
| "ALLOWED_DEPS Unknown = [Primitive, Semantic, Component, Base, Unknown]"

definition getTier :: "string \<Rightarrow> tier" where
  "getTier name =
     (if startsWith name ''--primitive-'' then Primitive
      else if startsWith name ''--semantic-'' then Semantic
      else if startsWith name ''--component-'' then Component
      else if startsWith name ''--base-'' then Base
      else Unknown)"

text \<open>
  A token definition as \<^verbatim>\<open>parseCSS\<close> stores it, and the definition map in insertion
  order (a JavaScript \<^verbatim>\<open>Map\<close>): an association list whose keys are distinct.
\<close>

record tokenDef =
  td_value :: string
  td_refs :: "string list"
  td_line :: nat
  td_layer :: "string option"

type_synonym tokenDefs = "(string \<times> tokenDef) list"

record violation =
  v_token :: string
  v_dep :: string
  v_tokenTier :: tier
  v_depTier :: tier
  v_line :: nat

text \<open>
  \<^verbatim>\<open>findTierViolations\<close>: the inner loops over the references of one definition, then
  the loop over the definitions.
\<close>

definition tokenViolations :: "string \<Rightarrow> tokenDef \<Rightarrow> violation list" where
  "tokenViolations name d =
     (let tokenTier = getTier name in
      if tokenTier = Unknown then []
      else if tokenTier = Primitive then
        map (\<lambda>dep. \<lparr>v_token = name, v_dep = dep, v_tokenTier = tokenTier,
                     v_depTier = getTier dep, v_line = td_line d\<rparr>) (td_refs d)
      else
        map (\<lambda>dep. \<lparr>v_token = name, v_dep = dep, v_tokenTier = tokenTier,
                     v_depTier = getTier dep, v_line = td_line d\<rparr>)
          (filter (\<lambda>dep. getTier dep \<notin> set (ALLOWED_DEPS tokenTier)) (td_refs d)))"

fun findTierViolations :: "tokenDefs \<Rightarrow> violation list" where
  "findTierViolations [] = []"
| "findTierViolations ((name, d) # rest) = tokenViolations name d @ findTierViolations rest"

section \<open>The stylesheet parser of the validator (validate-tokens.js, parseCSS)\<close>

text \<open>\<^verbatim>\<open>css.split('\n')\<close>: the lines of a text; the empty text has one empty line.\<close>

fun splitLines :: "string \<Rightarrow> string list" where
  "splitLines [] = [[]]"
| "splitLines (c # cs) =
     (if c = CHR 0x0A then [] # splitLines cs
      else (case splitLines cs of [] \<Rightarrow> [[c]] | l # ls \<Rightarrow> (c # l) # ls))"

definition countChar :: "char \<Rightarrow> string \<Rightarrow> int" where
  "countChar c s = int (length (filter (\<lambda>x. x = c) s))"

text \<open>
  \<^verbatim>\<open>/var\(\s*(--[\w-]+)/g\<close> run with \<^verbatim>\<open>exec\<close> until it fails: the names of all matches, left
  to right. A match starts at the first position where the pattern fits; the search
  resumes after the match.
\<close>

definition varMatch :: "string \<Rightarrow> (string \<times> string) option" where
  "varMatch s =
     (if startsWith s ''var('' then
        (let r = dropWhile isSpace (drop 4 s) in
         if startsWith r ''--'' \<and> takeWhile isNameChar (drop 2 r) \<noteq> []
         then Some (''--'' @ takeWhile isNameChar (drop 2 r), dropWhile isNameChar (drop 2 r))
         else None)
      else None)"

lemma varMatch_shorter: "varMatch s = Some (n, r) \<Longrightarrow> length r < length s"
proof -
  assume a: "varMatch s = Some (n, r)"
  then have sw: "startsWith s ''var(''" and r: "r = dropWhile isNameChar (drop 2 (dropWhile isSpace (drop 4 s)))"
    by (auto simp: varMatch_def Let_def split: if_splits)
  from sw have "4 \<le> length s"
    by (cases "4 \<le> length s") (auto simp: startsWith_def)
  moreover have "length r \<le> length (drop 4 s)"
  proof -
    have "length r \<le> length (drop 2 (dropWhile isSpace (drop 4 s)))"
      unfolding r by (rule length_dropWhile_le)
    also have "\<dots> \<le> length (dropWhile isSpace (drop 4 s))" by simp
    also have "\<dots> \<le> length (drop 4 s)" by (rule length_dropWhile_le)
    finally show ?thesis .
  qed
  ultimately show ?thesis by simp
qed

function extractVarRefs :: "string \<Rightarrow> string list" where
  "extractVarRefs s =
     (if s = [] then []
      else (case varMatch s of
              Some (name, rest) \<Rightarrow> name # extractVarRefs rest
            | None \<Rightarrow> extractVarRefs (tl s)))"
  by pat_completeness auto
termination
  by (relation "measure length") (auto dest: varMatch_shorter)

declare extractVarRefs.simps [simp del]

text \<open>\<^verbatim>\<open>/^@layer\s+([\w-]+)\s*\{/\<close> on the trimmed line: the layer name.\<close>

definition layerMatch :: "string \<Rightarrow> string option" where
  "layerMatch t =
     (if startsWith t ''@layer'' then
        (let r = drop 6 t;
             r1 = dropWhile isSpace r;
             nm = takeWhile isNameChar r1;
             r2 = dropWhile isSpace (dropWhile isNameChar r1)
         in if takeWhile isSpace r = [] \<or> nm = [] then None
            else if startsWith r2 ''{'' then Some nm else None)
      else None)"

text \<open>\<^verbatim>\<open>/^:root\s*\{/\<close> on the trimmed line.\<close>

definition rootMatch :: "string \<Rightarrow> bool" where
  "rootMatch t = (startsWith t '':root'' \<and> startsWith (dropWhile isSpace (drop 5 t)) ''{'')"

text \<open>
  \<^verbatim>\<open>/^(--[\w-]+)\s*:\s*(.+?)\s*;/\<close> on the trimmed line. The name is the longest run of name
  characters; the value is the lazy group: the shortest non-empty run of non-terminator
  characters after which only white space stands before a semicolon. The greedy white
  space before the value gives characters back when the rest does not fit otherwise.
\<close>

fun wsSemicolon :: "string \<Rightarrow> bool" where
  "wsSemicolon [] = False"
| "wsSemicolon (c # cs) = (if c = CHR '';'' then True else if isSpace c then wsSemicolon cs else False)"

fun lazyValue :: "string \<Rightarrow> string option" where
  "lazyValue [] = None"
| "lazyValue (c # cs) =
     (if \<not> isDot c then None
      else if wsSemicolon cs then Some [c]
      else map_option ((#) c) (lazyValue cs))"

fun wsValue :: "string \<Rightarrow> string option" where
  "wsValue [] = None"
| "wsValue (c # cs) =
     (if isSpace c then (case wsValue cs of Some v \<Rightarrow> Some v | None \<Rightarrow> lazyValue (c # cs))
      else lazyValue (c # cs))"

definition defMatch :: "string \<Rightarrow> (string \<times> string) option" where
  "defMatch t =
     (if startsWith t ''--'' then
        (let nm = takeWhile isNameChar (drop 2 t);
             r = dropWhile isSpace (dropWhile isNameChar (drop 2 t))
         in if nm = [] then None
            else (case r of
                    [] \<Rightarrow> None
                  | c # r' \<Rightarrow> if c = CHR '':'' then map_option (\<lambda>v. (''--'' @ nm, v)) (wsValue r')
                             else None))
      else None)"

record primUse =
  pu_token :: string
  pu_line :: nat
  pu_context :: string
  pu_truncated :: bool

text \<open>
  The state of the line loop. The layer stack has its top first; the rule usages are a
  \<^verbatim>\<open>Set\<close> in insertion order.
\<close>

record parseState =
  braceDepth :: int
  inRoot :: bool
  rootDepth :: int
  layerStack :: "(string \<times> int) list"
  tokenDefs :: tokenDefs
  ruleUsages :: "string list"
  primInRules :: "primUse list"

definition setAdd :: "'a \<Rightarrow> 'a list \<Rightarrow> 'a list" where
  "setAdd x xs = (if x \<in> set xs then xs else xs @ [x])"

text \<open>
  The context kept with a primitive used in a rule: the trimmed line, cut to 97
  characters and marked as truncated (an ellipsis in the source) when longer than 100.
\<close>

definition addUsage :: "string \<Rightarrow> nat \<Rightarrow> string list \<times> primUse list \<Rightarrow> string \<Rightarrow> string list \<times> primUse list" where
  "addUsage trimmed lineNum acc tokenName =
     (let usages = setAdd tokenName (fst acc) in
      if startsWith tokenName ''--primitive-''
      then (usages, snd acc @ [\<lparr>pu_token = tokenName, pu_line = lineNum,
              pu_context = (if length trimmed > 100 then take 97 trimmed else trimmed),
              pu_truncated = (length trimmed > 100)\<rparr>])
      else (usages, snd acc))"

text \<open>One iteration of the line loop; \<open>i\<close> is the index of the line.\<close>

definition parseLine :: "parseState \<Rightarrow> nat \<times> string \<Rightarrow> parseState" where
  "parseLine st il =
     (let line = snd il; lineNum = fst il + 1; trimmed = trim line in
      if trimmed = [] \<or> startsWith trimmed ''/*'' \<or> startsWith trimmed ''//'' then st
      else
        (let opens = countChar CHR ''{'' line;
             closes = countChar CHR ''}'' line;
             layerM = layerMatch trimmed;
             isRootOpen = (\<not> inRoot st \<and> rootMatch trimmed);
             depth = braceDepth st + (opens - closes);
             stack1 = (case layerM of Some nm \<Rightarrow> (nm, depth) # layerStack st | None \<Rightarrow> layerStack st);
             stack2 = dropWhile (\<lambda>e. depth < snd e) stack1;
             inRoot1 = (if isRootOpen then True else inRoot st);
             rootDepth1 = (if isRootOpen then depth else rootDepth st);
             leave = (inRoot1 \<and> depth < rootDepth1);
             inRoot2 = (if leave then False else inRoot1);
             rootDepth2 = (if leave then - 1 else rootDepth1);
             currentLayer = (case stack2 of [] \<Rightarrow> None | e # _ \<Rightarrow> Some (fst e));
             st1 = st\<lparr>braceDepth := depth, inRoot := inRoot2, rootDepth := rootDepth2,
                      layerStack := stack2\<rparr>
         in if inRoot2 then
              (case defMatch trimmed of
                 Some (name, v) \<Rightarrow>
                   if map_of (tokenDefs st) name = None
                   then st1\<lparr>tokenDefs := tokenDefs st @
                          [(name, \<lparr>td_value = v, td_refs = extractVarRefs v,
                                    td_line = lineNum, td_layer = currentLayer\<rparr>)]\<rparr>
                   else st1
               | None \<Rightarrow> st1)
            else if depth > 0 then
              (let acc = foldl (addUsage trimmed lineNum) (ruleUsages st, primInRules st)
                           (extractVarRefs trimmed)
               in st1\<lparr>ruleUsages := fst acc, primInRules := snd acc\<rparr>)
            else st1))"

definition initialState :: parseState where
  "initialState = \<lparr>braceDepth = 0, inRoot = False, rootDepth = - 1, layerStack = [],
     tokenDefs = [], ruleUsages = [], primInRules = []\<rparr>"

definition parseCSS :: "string \<Rightarrow> parseState" where
  "parseCSS css = foldl parseLine initialState (enumerate 0 (splitLines css))"

section \<open>The dependency graph and the cycle detector (validate-tokens.js)\<close>

text \<open>
  The graph is a \<^verbatim>\<open>Map\<close> from a name to the list of its references, in insertion order.
  \<^verbatim>\<open>buildGraph\<close> sets one entry per definition.
\<close>

type_synonym graph = "(string \<times> string list) list"

definition buildGraph :: "tokenDefs \<Rightarrow> graph" where
  "buildGraph defs = foldl (\<lambda>g nd. AList.update (fst nd) (td_refs (snd nd)) g) [] defs"

datatype colour = WHITE | GRAY | BLACK

type_synonym colouring = "(string \<times> colour) list"

text \<open>\<^verbatim>\<open>graph.get(node) || []\<close>.\<close>

definition getDeps :: "graph \<Rightarrow> string \<Rightarrow> string list" where
  "getDeps g node = (case map_of g node of Some deps \<Rightarrow> deps | None \<Rightarrow> [])"

text \<open>
  \<^verbatim>\<open>path.indexOf(dep)\<close>, which is \<open>-1\<close> when the element is missing, and \<^verbatim>\<open>path.slice(i)\<close>,
  which counts a negative index from the end.
\<close>

fun indexOf :: "'a list \<Rightarrow> 'a \<Rightarrow> int" where
  "indexOf [] x = - 1"
| "indexOf (y # ys) x = (if y = x then 0 else (let i = indexOf ys x in if i < 0 then - 1 else i + 1))"

definition sliceFrom :: "'a list \<Rightarrow> int \<Rightarrow> 'a list" where
  "sliceFrom xs i = (if i < 0 then drop (nat (int (length xs) + i)) xs else drop (nat i) xs)"

text \<open>
  The inner loop of \<^verbatim>\<open>dfs\<close> over the edges of the top frame, from its \<^verbatim>\<open>childIdx\<close> on. The
  colours do not change while it runs. It ends with the edges used up (\<open>None\<close>: nothing
  advanced) or at the first white reference (\<open>Some dep\<close>), and returns the index reached and
  the cycles found. A reference without a colour is not in the graph and is passed over.
\<close>

fun scanDeps :: "colouring \<Rightarrow> string list \<Rightarrow> string list \<Rightarrow> nat \<Rightarrow> string list list
    \<Rightarrow> string option \<times> nat \<times> string list list" where
  "scanDeps color path [] childIdx cycles = (None, childIdx, cycles)"
| "scanDeps color path (dep # deps) childIdx cycles =
     (case map_of color dep of
        None \<Rightarrow> scanDeps color path deps (Suc childIdx) cycles
      | Some GRAY \<Rightarrow>
          scanDeps color path deps (Suc childIdx)
            (cycles @ [sliceFrom path (indexOf path dep) @ [dep]])
      | Some WHITE \<Rightarrow> (Some dep, Suc childIdx, cycles)
      | Some BLACK \<Rightarrow> scanDeps color path deps (Suc childIdx) cycles)"

text \<open>The number of white entries, for the termination of the outer loop.\<close>

definition whites :: "colouring \<Rightarrow> nat" where
  "whites color = length (filter (\<lambda>e. snd e = WHITE) color)"

lemma scanDeps_white:
  "scanDeps color path deps i cycles = (Some dep, j, cycles') \<Longrightarrow> map_of color dep = Some WHITE"
  by (induction deps arbitrary: i cycles) (auto split: option.splits colour.splits)

lemma whites_update_le: "c \<noteq> WHITE \<Longrightarrow> whites (AList.update k c color) \<le> whites color"
  by (induction color) (auto simp: whites_def)

lemma whites_update_less:
  "map_of color k = Some WHITE \<Longrightarrow> c \<noteq> WHITE \<Longrightarrow> whites (AList.update k c color) < whites color"
  by (induction color) (auto simp: whites_def split: if_splits)

text \<open>
  The outer loop of \<^verbatim>\<open>dfs\<close>, on the call stack (top first) and the path (start first):
  enter the white reference found, or colour the top node black and pop it.
\<close>

function dfsLoop :: "graph \<Rightarrow> colouring \<Rightarrow> string list list \<Rightarrow> (string \<times> nat) list \<Rightarrow> string list
    \<Rightarrow> colouring \<times> string list list" where
  "dfsLoop g color cycles [] path = (color, cycles)"
| "dfsLoop g color cycles (frame # callStack) path =
     (case scanDeps color path (drop (snd frame) (getDeps g (fst frame))) (snd frame) cycles of
        (Some dep, childIdx, cycles') \<Rightarrow>
          dfsLoop g (AList.update dep GRAY color) cycles'
            ((dep, 0) # (fst frame, childIdx) # callStack) (path @ [dep])
      | (None, childIdx, cycles') \<Rightarrow>
          dfsLoop g (AList.update (fst frame) BLACK color) cycles' callStack (butlast path))"
  by pat_completeness auto
termination
proof (relation "measure (\<lambda>(g, color, cycles, callStack, path). 2 * whites color + length callStack)")
  show "wf (measure (\<lambda>(g, color, cycles, callStack, path). 2 * whites color + length callStack))"
    by simp
next
  fix g :: graph and color :: colouring and cycles :: "string list list" and frame :: "string \<times> nat"
    and callStack :: "(string \<times> nat) list" and path :: "string list"
    and x1 x2 x3 cycles' dep
  assume "(x1, x2) = scanDeps color path (drop (snd frame) (getDeps g (fst frame))) (snd frame) cycles"
    and "(x3, cycles') = x2" and "x1 = Some dep"
  then have "scanDeps color path (drop (snd frame) (getDeps g (fst frame))) (snd frame) cycles
      = (Some dep, x3, cycles')"
    by simp
  then have "map_of color dep = Some WHITE"
    by (rule scanDeps_white)
  then have "whites (AList.update dep GRAY color) < whites color"
    by (rule whites_update_less) simp
  then show "((g, AList.update dep GRAY color, cycles', (dep, 0) # (fst frame, x3) # callStack, path @ [dep]),
              (g, color, cycles, frame # callStack, path))
             \<in> measure (\<lambda>(g, color, cycles, callStack, path). 2 * whites color + length callStack)"
    by simp
next
  fix g :: graph and color :: colouring and cycles :: "string list list" and frame :: "string \<times> nat"
    and callStack :: "(string \<times> nat) list" and path :: "string list"
    and x1 x2 x3 cycles'
  have "whites (AList.update (fst frame) BLACK color) \<le> whites color"
    by (rule whites_update_le) simp
  then show "((g, AList.update (fst frame) BLACK color, cycles', callStack, butlast path),
              (g, color, cycles, frame # callStack, path))
             \<in> measure (\<lambda>(g, color, cycles, callStack, path). 2 * whites color + length callStack)"
    by simp
qed

text \<open>
  \<^verbatim>\<open>dfs(start)\<close>, the test and call in the last loop of \<^verbatim>\<open>findCycles\<close>, and \<^verbatim>\<open>findCycles\<close>:
  all keys white, then a search from every key that is still white, in key order.
\<close>

definition dfs :: "graph \<Rightarrow> colouring \<times> string list list \<Rightarrow> string \<Rightarrow> colouring \<times> string list list" where
  "dfs g acc start = dfsLoop g (AList.update start GRAY (fst acc)) (snd acc) [(start, 0)] [start]"

definition visit :: "graph \<Rightarrow> colouring \<times> string list list \<Rightarrow> string \<Rightarrow> colouring \<times> string list list" where
  "visit g acc name = (if map_of (fst acc) name = Some WHITE then dfs g acc name else acc)"

definition findCycles :: "graph \<Rightarrow> string list list" where
  "findCycles g =
     (let color = foldl (\<lambda>color name. AList.update name WHITE color) [] (map fst g)
      in snd (foldl (visit g) (color, []) (map fst g)))"

section \<open>The remaining rules and the validator's main (validate-tokens.js)\<close>

record missingRef =
  mr_consumer :: string
  mr_missing :: string
  mr_line :: "nat option"

text \<open>\<^verbatim>\<open>findMissingRefs\<close>: references of definitions first, then the rule usages.\<close>

definition findMissingRefs :: "tokenDefs \<Rightarrow> string list \<Rightarrow> missingRef list" where
  "findMissingRefs defs usages =
     concat (map (\<lambda>nd. map (\<lambda>dep. \<lparr>mr_consumer = fst nd, mr_missing = dep,
                                       mr_line = Some (td_line (snd nd))\<rparr>)
                         (filter (\<lambda>dep. map_of defs dep = None) (td_refs (snd nd)))) defs)
     @ map (\<lambda>used. \<lparr>mr_consumer = ''(css rule)'', mr_missing = used, mr_line = None\<rparr>)
         (filter (\<lambda>used. map_of defs used = None) usages)"

definition findOrphans :: "tokenDefs \<Rightarrow> graph \<Rightarrow> string list \<Rightarrow> string list" where
  "findOrphans defs g usages =
     (let referencedByTokens = concat (map snd g)
      in filter (\<lambda>name. name \<notin> set referencedByTokens \<and> name \<notin> set usages) (map fst defs))"

definition findUnusedSemantics :: "tokenDefs \<Rightarrow> graph \<Rightarrow> string list \<Rightarrow> string list" where
  "findUnusedSemantics defs g usages =
     (let usedByComponents =
            concat (map (\<lambda>e. if getTier (fst e) = Component
                              then filter (\<lambda>dep. getTier dep = Semantic) (snd e) else []) g)
      in filter (\<lambda>name. getTier name = Semantic \<and> name \<notin> set usedByComponents \<and> name \<notin> set usages)
           (map fst defs))"

text \<open>
  An entry of the error or warning list. The source builds a message and a detail text
  from the same data; the entry keeps the data.
\<close>

datatype issue =
    MissingReference missingRef
  | CircularDependency "string list"
  | TierViolation violation
  | DirectPrimitive primUse
  | OrphanToken string
  | UnusedSemantic string

record report =
  rp_tokenCount :: nat
  rp_ruleUsageCount :: nat
  rp_noCycles :: bool
  rp_errors :: "issue list"
  rp_warnings :: "issue list"

text \<open>Steps (b) to (e) of \<^verbatim>\<open>main\<close>: parse, build the graph, run the rules, compile the lists.\<close>

definition compileReport :: "string \<Rightarrow> report" where
  "compileReport css =
     (let st = parseCSS css;
          g = buildGraph (tokenDefs st);
          missingRefs = findMissingRefs (tokenDefs st) (ruleUsages st);
          cycles = findCycles g;
          tierViolations = findTierViolations (tokenDefs st);
          orphans = findOrphans (tokenDefs st) g (ruleUsages st);
          unusedSemantics = findUnusedSemantics (tokenDefs st) g (ruleUsages st)
      in \<lparr>rp_tokenCount = length (tokenDefs st),
          rp_ruleUsageCount = length (ruleUsages st),
          rp_noCycles = (length cycles = 0),
          rp_errors = map MissingReference missingRefs @ map CircularDependency cycles
                      @ map TierViolation tierViolations @ map DirectPrimitive (primInRules st),
          rp_warnings = map OrphanToken orphans @ map UnusedSemantic unusedSemantics\<rparr>)"

text \<open>
  The stylesheet as \<^verbatim>\<open>main\<close> finds it: no candidate file exists, the file cannot be
  read, or its text.
\<close>

datatype cssInput = NoCssFile | Unreadable | CssText string

text \<open>The run of \<^verbatim>\<open>main\<close>: the exit code and the report, when one is printed.\<close>

definition main :: "cssInput \<Rightarrow> nat \<times> report option" where
  "main inp =
     (case inp of
        NoCssFile \<Rightarrow> (0, None)
      | Unreadable \<Rightarrow> (1, None)
      | CssText css \<Rightarrow>
          (let r = compileReport css
           in (if length (rp_errors r) > 0 then 1 else 0, Some r)))"

section \<open>Cycle detection of the sync scripts (figma-sync-dry-run.js, figma-sync-apply.js)\<close>

text \<open>
  A frame of the explicit stack: the node, the path from the start to the node, and the
  index of the next edge.
\<close>

type_synonym frame = "string \<times> string list \<times> nat"

text \<open>
  For the termination of the loop: the nodes of the graph that are neither gray nor
  black (a push makes one gray), and the edges and frames still on the stack.
\<close>

definition allNodes :: "graph \<Rightarrow> string list" where
  "allNodes g = remdups (map fst g @ concat (map snd g))"

definition visited :: "colouring \<Rightarrow> string \<Rightarrow> bool" where
  "visited color n = (map_of color n = Some GRAY \<or> map_of color n = Some BLACK)"

definition unvisited :: "graph \<Rightarrow> colouring \<Rightarrow> nat" where
  "unvisited g color = length (filter (\<lambda>n. \<not> visited color n) (allNodes g))"

definition pending :: "graph \<Rightarrow> frame list \<Rightarrow> nat" where
  "pending g stack = sum_list (map (\<lambda>f. Suc (length (getDeps g (fst f)) - snd (snd f))) stack)"

text \<open>\<^verbatim>\<open>if (!color.has(dep)) color.set(dep, WHITE)\<close>.\<close>

definition ensureColour :: "colouring \<Rightarrow> string \<Rightarrow> colouring" where
  "ensureColour color dep = (if map_of color dep = None then AList.update dep WHITE color else color)"

lemma getDeps_allNodes: "i < length (getDeps g n) \<Longrightarrow> getDeps g n ! i \<in> set (allNodes g)"
proof -
  assume a: "i < length (getDeps g n)"
  then obtain deps where m: "map_of g n = Some deps" and d: "getDeps g n = deps"
    by (cases "map_of g n") (auto simp: getDeps_def)
  from m have "(n, deps) \<in> set g" by (rule map_of_SomeD)
  then have "set deps \<subseteq> set (concat (map snd g))" by force
  moreover from a d have "getDeps g n ! i \<in> set deps" by simp
  ultimately show ?thesis by (auto simp: allNodes_def)
qed

lemma visited_ensure: "visited (ensureColour color dep) n = visited color n"
  by (auto simp: visited_def ensureColour_def update_conv')

lemma unvisited_ensure: "unvisited g (ensureColour color dep) = unvisited g color"
  by (simp add: unvisited_def visited_ensure)

lemma unvisited_mono:
  assumes "\<And>n. visited color n \<Longrightarrow> visited color' n"
  shows "unvisited g color' \<le> unvisited g color"
proof -
  have "length (filter (\<lambda>n. \<not> visited color' n) xs) \<le> length (filter (\<lambda>n. \<not> visited color n) xs)" for xs
    using assms by (induction xs) auto
  then show ?thesis by (simp add: unvisited_def)
qed

lemma unvisited_less:
  assumes "\<And>n. visited color n \<Longrightarrow> visited color' n"
    and "d \<in> set (allNodes g)" and "\<not> visited color d" and "visited color' d"
  shows "unvisited g color' < unvisited g color"
proof -
  have "d \<in> set xs \<Longrightarrow>
      length (filter (\<lambda>n. \<not> visited color' n) xs) < length (filter (\<lambda>n. \<not> visited color n) xs)" for xs
  proof (induction xs)
    case Nil
    then show ?case by simp
  next
    case (Cons x xs)
    have le: "length (filter (\<lambda>n. \<not> visited color' n) xs) \<le> length (filter (\<lambda>n. \<not> visited color n) xs)"
      using assms(1) by (induction xs) auto
    show ?case
    proof (cases "x = d")
      case True
      with le assms(3,4) show ?thesis by simp
    next
      case False
      with Cons have "length (filter (\<lambda>n. \<not> visited color' n) xs) < length (filter (\<lambda>n. \<not> visited color n) xs)"
        by simp
      with assms(1)[of x] show ?thesis by auto
    qed
  qed
  with assms(2) show ?thesis by (simp add: unvisited_def)
qed

lemma visited_update: "c \<noteq> WHITE \<Longrightarrow> visited color n \<Longrightarrow> visited (AList.update k c color) n"
  by (cases c) (auto simp: visited_def update_conv')

text \<open>
  The loop of \<^verbatim>\<open>dfs\<close> in the sync scripts, one edge of the top frame per iteration: pop a
  frame whose edges are used up; else take the next reference, report a cycle when it is
  gray, enter it when it is white.
\<close>

function dfsLoop_sync :: "graph \<Rightarrow> colouring \<Rightarrow> string list list \<Rightarrow> frame list
    \<Rightarrow> colouring \<times> string list list" where
  "dfsLoop_sync g color cycles [] = (color, cycles)"
| "dfsLoop_sync g color cycles ((node, path, edgeIdx) # stack) =
     (let deps = getDeps g node in
      if edgeIdx \<ge> length deps then dfsLoop_sync g (AList.update node BLACK color) cycles stack
      else
        (let dep = deps ! edgeIdx;
             color1 = ensureColour color dep
         in if map_of color1 dep = Some GRAY then
              dfsLoop_sync g color1 (cycles @ [sliceFrom path (indexOf path dep) @ [dep]])
                ((node, path, Suc edgeIdx) # stack)
            else if map_of color1 dep = Some WHITE then
              dfsLoop_sync g (AList.update dep GRAY color1) cycles
                ((dep, path @ [dep], 0) # (node, path, Suc edgeIdx) # stack)
            else dfsLoop_sync g color1 cycles ((node, path, Suc edgeIdx) # stack)))"
  by pat_completeness auto
termination
proof (relation "inv_image (less_than <*lex*> less_than)
                   (\<lambda>(g, color, cycles, stack). (unvisited g color, pending g stack))")
  show "wf (inv_image (less_than <*lex*> less_than)
                   (\<lambda>(g, color, cycles, stack). (unvisited g color, pending g stack)))"
    by (intro wf_inv_image wf_lex_prod wf_less_than)
next
  fix g :: graph and color :: colouring and cycles :: "string list list" and node :: string
    and path :: "string list" and edgeIdx :: nat and stack :: "frame list" and deps
  assume "deps = getDeps g node" "length deps \<le> edgeIdx"
  have "unvisited g (AList.update node BLACK color) \<le> unvisited g color"
    by (rule unvisited_mono) (simp add: visited_update)
  then show "((g, AList.update node BLACK color, cycles, stack), (g, color, cycles, (node, path, edgeIdx) # stack))
      \<in> inv_image (less_than <*lex*> less_than) (\<lambda>(g, color, cycles, stack). (unvisited g color, pending g stack))"
    by (auto simp: pending_def)
next
  fix g :: graph and color :: colouring and cycles :: "string list list" and node :: string
    and path :: "string list" and edgeIdx :: nat and stack :: "frame list" and deps dep color1
  assume "deps = getDeps g node" "\<not> length deps \<le> edgeIdx" "color1 = ensureColour color dep"
  then show "((g, color1, cycles @ [sliceFrom path (indexOf path dep) @ [dep]], (node, path, Suc edgeIdx) # stack),
              (g, color, cycles, (node, path, edgeIdx) # stack))
      \<in> inv_image (less_than <*lex*> less_than) (\<lambda>(g, color, cycles, stack). (unvisited g color, pending g stack))"
    by (auto simp: pending_def unvisited_ensure)
next
  fix g :: graph and color :: colouring and cycles :: "string list list" and node :: string
    and path :: "string list" and edgeIdx :: nat and stack :: "frame list" and deps dep color1
  assume a: "deps = getDeps g node" "\<not> length deps \<le> edgeIdx" "dep = deps ! edgeIdx"
    "color1 = ensureColour color dep" "map_of color1 dep = Some WHITE"
  have "unvisited g (AList.update dep GRAY color1) < unvisited g color1"
  proof (rule unvisited_less)
    show "dep \<in> set (allNodes g)" using a by (simp add: getDeps_allNodes)
    show "\<not> visited color1 dep" using a by (simp add: visited_def)
    show "visited (AList.update dep GRAY color1) dep" by (simp add: visited_def update_conv')
  qed (simp add: visited_update)
  then show "((g, AList.update dep GRAY color1, cycles, (dep, path @ [dep], 0) # (node, path, Suc edgeIdx) # stack),
              (g, color, cycles, (node, path, edgeIdx) # stack))
      \<in> inv_image (less_than <*lex*> less_than) (\<lambda>(g, color, cycles, stack). (unvisited g color, pending g stack))"
    using a by (simp add: unvisited_ensure)
next
  fix g :: graph and color :: colouring and cycles :: "string list list" and node :: string
    and path :: "string list" and edgeIdx :: nat and stack :: "frame list" and deps dep color1
  assume "deps = getDeps g node" "\<not> length deps \<le> edgeIdx" "color1 = ensureColour color dep"
  then show "((g, color1, cycles, (node, path, Suc edgeIdx) # stack),
              (g, color, cycles, (node, path, edgeIdx) # stack))
      \<in> inv_image (less_than <*lex*> less_than) (\<lambda>(g, color, cycles, stack). (unvisited g color, pending g stack))"
    by (auto simp: pending_def unvisited_ensure)
qed


declare dfsLoop_sync.simps [simp del]

definition dfs_sync :: "graph \<Rightarrow> colouring \<Rightarrow> string list list \<Rightarrow> string \<Rightarrow> colouring \<times> string list list" where
  "dfs_sync g color cycles start = dfsLoop_sync g (AList.update start GRAY color) cycles [(start, [start], 0)]"

text \<open>
  The size of the colour map plus the number of graph nodes it does not hold yet: a
  search started at a key of the map leaves it unchanged, which bounds the loop over the
  entries of the growing map.
\<close>

definition potential :: "graph \<Rightarrow> colouring \<Rightarrow> nat" where
  "potential g color = length color + card (set (allNodes g) - fst ` set color)"

lemma length_update:
  "length (AList.update k v al) = (if k \<in> fst ` set al then length al else Suc (length al))"
  by (induction al) auto

lemma potential_update_key:
  "k \<in> fst ` set color \<Longrightarrow> potential g (AList.update k c color) = potential g color"
  by (simp add: potential_def length_update dom_update insert_absorb)

lemma potential_update_node:
  assumes "k \<in> set (allNodes g)"
  shows "potential g (AList.update k c color) = potential g color"
proof (cases "k \<in> fst ` set color")
  case True
  then show ?thesis by (rule potential_update_key)
next
  case False
  with assms have "k \<in> set (allNodes g) - fst ` set color" by simp
  then have "card (set (allNodes g) - fst ` set color) = Suc (card (set (allNodes g) - insert k (fst ` set color)))"
    by (metis List.finite_set card_Suc_Diff1 finite_Diff Diff_insert)
  with False show ?thesis
    by (simp add: potential_def length_update dom_update)
qed

lemma potential_ensure:
  "k \<in> set (allNodes g) \<Longrightarrow> potential g (ensureColour color k) = potential g color"
  by (simp add: ensureColour_def potential_update_node)

lemma keys_ensure: "fst ` set color \<subseteq> fst ` set (ensureColour color k)"
  by (auto simp: ensureColour_def dom_update)

lemma dfsLoop_sync_potential:
  "\<forall>f \<in> set stack. fst f \<in> fst ` set color \<Longrightarrow>
   potential g (fst (dfsLoop_sync g color cycles stack)) = potential g color"
proof (induction g color cycles stack rule: dfsLoop_sync.induct)
  case (1 g color cycles)
  then show ?case by (simp add: dfsLoop_sync.simps)
next
  case (2 g color cycles node path edgeIdx stack)
  define deps where "deps = getDeps g node"
  show ?case
  proof (cases "edgeIdx \<ge> length deps")
    case True
    have "potential g (fst (dfsLoop_sync g (AList.update node BLACK color) cycles stack))
        = potential g (AList.update node BLACK color)"
      using 2(1)[OF deps_def True] 2(5) by (auto simp: dom_update)
    also have "\<dots> = potential g color"
      using 2(5) by (simp add: potential_update_key)
    finally show ?thesis
      using True by (simp add: dfsLoop_sync.simps(2) deps_def)
  next
    case False
    define dep where "dep = deps ! edgeIdx"
    define color1 where "color1 = ensureColour color dep"
    have dn: "dep \<in> set (allNodes g)"
      using False by (simp add: dep_def deps_def getDeps_allNodes)
    have p1: "potential g color1 = potential g color"
      using dn by (simp add: color1_def potential_ensure)
    have k1: "\<forall>f \<in> set ((node, path, Suc edgeIdx) # stack). fst f \<in> fst ` set color1"
      using 2(5) keys_ensure[of color dep] by (auto simp: color1_def)
    show ?thesis
    proof (cases "map_of color1 dep = Some GRAY")
      case True
      have "potential g (fst (dfsLoop_sync g color1 (cycles @ [sliceFrom path (indexOf path dep) @ [dep]])
              ((node, path, Suc edgeIdx) # stack))) = potential g color1"
        using 2(2)[OF deps_def False dep_def color1_def True] k1 by blast
      with p1 True False show ?thesis
        by (simp add: dfsLoop_sync.simps(2) deps_def[symmetric]
            dep_def[symmetric] color1_def[symmetric] Let_def)
    next
      case ng: False
      show ?thesis
      proof (cases "map_of color1 dep = Some WHITE")
        case True
        have "\<forall>f \<in> set ((dep, path @ [dep], 0) # (node, path, Suc edgeIdx) # stack).
                fst f \<in> fst ` set (AList.update dep GRAY color1)"
          using k1 by (auto simp: dom_update)
        then have "potential g (fst (dfsLoop_sync g (AList.update dep GRAY color1) cycles
              ((dep, path @ [dep], 0) # (node, path, Suc edgeIdx) # stack)))
            = potential g (AList.update dep GRAY color1)"
          using 2(3)[OF deps_def False dep_def color1_def ng True] by blast
        also have "\<dots> = potential g color1"
          using dn by (rule potential_update_node)
        finally show ?thesis
          using p1 True ng False
          by (simp add: dfsLoop_sync.simps(2) deps_def[symmetric]
              dep_def[symmetric] color1_def[symmetric] Let_def)
      next
        case nw: False
        have "potential g (fst (dfsLoop_sync g color1 cycles ((node, path, Suc edgeIdx) # stack)))
            = potential g color1"
          using 2(4)[OF deps_def False dep_def color1_def ng nw] k1 by blast
        with p1 nw ng False show ?thesis
          by (simp add: dfsLoop_sync.simps(2) deps_def[symmetric]
              dep_def[symmetric] color1_def[symmetric] Let_def)
      qed
    qed
  qed
qed

lemma dfs_sync_potential:
  "i < length color \<Longrightarrow> potential g (fst (dfs_sync g color cycles (fst (color ! i)))) = potential g color"
proof -
  assume a: "i < length color"
  then have k: "fst (color ! i) \<in> fst ` set color" by simp
  have "potential g (fst (dfs_sync g color cycles (fst (color ! i))))
      = potential g (AList.update (fst (color ! i)) GRAY color)"
    unfolding dfs_sync_def by (rule dfsLoop_sync_potential) (simp add: dom_update)
  with k show ?thesis by (simp add: potential_update_key)
qed

text \<open>
  \<^verbatim>\<open>for (const [node, clr] of color)\<close>: the loop over the entries of the colour map, which
  also reaches the entries that a search appends while the loop runs.
\<close>

function visitFrom_sync :: "graph \<Rightarrow> nat \<Rightarrow> colouring \<Rightarrow> string list list \<Rightarrow> colouring \<times> string list list" where
  "visitFrom_sync g i color cycles =
     (if i < length color then
        (if snd (color ! i) = WHITE then
           (case dfs_sync g color cycles (fst (color ! i)) of
              (color', cycles') \<Rightarrow> visitFrom_sync g (Suc i) color' cycles')
         else visitFrom_sync g (Suc i) color cycles)
      else (color, cycles))"
  by pat_completeness auto
termination
proof (relation "measure (\<lambda>(g, i, color, cycles). potential g color - i)")
  show "wf (measure (\<lambda>(g, i, color, cycles). potential g color - i))" by simp
next
  fix g :: graph and i :: nat and color :: colouring and cycles :: "string list list" and x y
  assume a: "i < length color" "(x, y) = dfs_sync g color cycles (fst (color ! i))"
  then have "potential g x = potential g color"
    using dfs_sync_potential[of i color g cycles] by (metis fst_conv)
  moreover have "i < potential g color" using a(1) by (simp add: potential_def)
  ultimately show "((g, Suc i, x, y), (g, i, color, cycles))
      \<in> measure (\<lambda>(g, i, color, cycles). potential g color - i)"
    by simp
next
  fix g :: graph and i :: nat and color :: colouring and cycles :: "string list list"
  assume "i < length color"
  then have "i < potential g color" by (simp add: potential_def)
  then show "((g, Suc i, color, cycles), (g, i, color, cycles))
      \<in> measure (\<lambda>(g, i, color, cycles). potential g color - i)"
    by simp
qed

declare visitFrom_sync.simps [simp del]

definition findCycles_sync :: "graph \<Rightarrow> string list list" where
  "findCycles_sync g =
     (let color = foldl (\<lambda>color node. AList.update node WHITE color) [] (map fst g)
      in snd (visitFrom_sync g 0 color []))"

section \<open>The external token normalizer (figma-sync-dry-run.js)\<close>

text \<open>\<^verbatim>\<open>VALID_FIGMA_TIERS\<close> and \<^verbatim>\<open>FIGMA_ALLOWED_DEPS\<close>.\<close>

definition VALID_FIGMA_TIERS :: "tier list" where
  "VALID_FIGMA_TIERS = [Primitive, Semantic, Component]"

fun FIGMA_ALLOWED_DEPS :: "tier \<Rightarrow> tier list" where
  "FIGMA_ALLOWED_DEPS Primitive = []"
| "FIGMA_ALLOWED_DEPS Semantic = [Primitive]"
| "FIGMA_ALLOWED_DEPS Component = [Semantic]"
| "FIGMA_ALLOWED_DEPS t = []"

definition figmaNameToCSSVar :: "string \<Rightarrow> string" where
  "figmaNameToCSSVar dotName = ''--'' @ map (\<lambda>c. if c = CHR ''.'' then CHR ''-'' else c) dotName"

text \<open>
  \<^verbatim>\<open>/^\{(.+)\}$/\<close>: the text between the opening brace that starts the value and the closing
  brace that ends it, when it is not empty and holds no line terminator.
\<close>

definition braceRef :: "string \<Rightarrow> string option" where
  "braceRef v =
     (case v of
        [] \<Rightarrow> None
      | c # rest \<Rightarrow>
          if c = CHR ''{'' \<and> rest \<noteq> [] \<and> last rest = CHR ''}'' \<and> butlast rest \<noteq> []
             \<and> list_all isDot (butlast rest)
          then Some (butlast rest) else None)"

definition figmaValueToCSS :: "string \<Rightarrow> string" where
  "figmaValueToCSS figmaValue =
     (case braceRef figmaValue of
        Some m \<Rightarrow> ''var('' @ figmaNameToCSSVar m @ '')''
      | None \<Rightarrow> figmaValue)"

definition extractFigmaRef :: "string \<Rightarrow> string option" where
  "extractFigmaRef figmaValue = map_option figmaNameToCSSVar (braceRef figmaValue)"

text \<open>The tier of a custom property name, \<open>None\<close> for the source's \<^verbatim>\<open>null\<close>.\<close>

definition getTierFromCSSName :: "string \<Rightarrow> tier option" where
  "getTierFromCSSName cssName =
     (if startsWith cssName ''--primitive-'' then Some Primitive
      else if startsWith cssName ''--semantic-'' then Some Semantic
      else if startsWith cssName ''--component-'' then Some Component
      else if startsWith cssName ''--base-'' then Some Base
      else None)"

text \<open>\<^verbatim>\<open>figmaName.split('.')[0]\<close>: the name up to its first dot.\<close>

definition firstSegment :: "string \<Rightarrow> string" where
  "firstSegment figmaName = takeWhile (\<lambda>c. c \<noteq> CHR ''.'') figmaName"

definition getTierFromFigmaName :: "string \<Rightarrow> tier option" where
  "getTierFromFigmaName figmaName =
     (let prefix = firstSegment figmaName in
      if prefix = ''primitive'' then Some Primitive
      else if prefix = ''semantic'' then Some Semantic
      else if prefix = ''component'' then Some Component
      else None)"

record figmaToken =
  ft_cssName :: string
  ft_cssValue :: string
  ft_figmaName :: string
  ft_figmaValue :: string
  ft_tier :: "tier option"

text \<open>
  The export file after \<^verbatim>\<open>JSON.parse\<close>: unparsable, without a \<^verbatim>\<open>tokens\<close> array, or the
  array; a field of an entry is \<open>None\<close> when it is missing or not a string.
\<close>

record rawEntry =
  re_name :: "string option"
  re_value :: "string option"

datatype figmaExport = InvalidJSON | NoTokensArray | TokensArray "rawEntry list"

datatype parseError = InvalidJson | MissingTokensArray | MissingName nat | MissingValue string

fun convertEntries :: "nat \<Rightarrow> rawEntry list \<Rightarrow> parseError + figmaToken list" where
  "convertEntries idx [] = Inr []"
| "convertEntries idx (entry # entries) =
     (case re_name entry of
        None \<Rightarrow> Inl (MissingName idx)
      | Some name \<Rightarrow>
          if trim name = [] then Inl (MissingName idx)
          else (case re_value entry of
                  None \<Rightarrow> Inl (MissingValue name)
                | Some v \<Rightarrow>
                    (case convertEntries (Suc idx) entries of
                       Inl e \<Rightarrow> Inl e
                     | Inr ts \<Rightarrow>
                         Inr (\<lparr>ft_cssName = figmaNameToCSSVar name,
                               ft_cssValue = figmaValueToCSS v,
                               ft_figmaName = name,
                               ft_figmaValue = v,
                               ft_tier = getTierFromFigmaName name\<rparr> # ts))))"

definition parseFigmaExport :: "figmaExport \<Rightarrow> parseError + figmaToken list" where
  "parseFigmaExport json =
     (case json of
        InvalidJSON \<Rightarrow> Inl InvalidJson
      | NoTokensArray \<Rightarrow> Inl MissingTokensArray
      | TokensArray entries \<Rightarrow> convertEntries 0 entries)"

text \<open>An architecture error; the source keeps a message and a detail text of the same data.\<close>

datatype archError =
    UnknownTier string
  | UnknownRefTier string string
  | InvalidRefTier string string tier
  | FigmaTierViolation string string tier tier
  | FigmaCircular "string list"

text \<open>The body of the loop of \<^verbatim>\<open>validateFigmaTiers\<close> for one token.\<close>

definition validateToken :: "figmaToken \<Rightarrow> archError list" where
  "validateToken token =
     (case ft_tier token of
        None \<Rightarrow> [UnknownTier (ft_figmaName token)]
      | Some tokenTier \<Rightarrow>
          (case extractFigmaRef (ft_figmaValue token) of
             None \<Rightarrow> []
           | Some refCSSName \<Rightarrow>
               (case getTierFromCSSName refCSSName of
                  None \<Rightarrow> [UnknownRefTier (ft_figmaName token) refCSSName]
                | Some refTier \<Rightarrow>
                    if refTier \<notin> set VALID_FIGMA_TIERS
                    then [InvalidRefTier (ft_figmaName token) refCSSName refTier]
                    else if refTier \<notin> set (FIGMA_ALLOWED_DEPS tokenTier)
                    then [FigmaTierViolation (ft_figmaName token) refCSSName tokenTier refTier]
                    else [])))"

definition validateFigmaTiers :: "figmaToken list \<Rightarrow> archError list" where
  "validateFigmaTiers figmaTokens = concat (map validateToken figmaTokens)"

definition buildFigmaGraph :: "figmaToken list \<Rightarrow> graph" where
  "buildFigmaGraph figmaTokens =
     foldl (\<lambda>g token. AList.update (ft_cssName token)
                         (case extractFigmaRef (ft_figmaValue token) of Some r \<Rightarrow> [r] | None \<Rightarrow> []) g)
       [] figmaTokens"

section \<open>The stylesheet parser of the sync scripts (parseCSSTokens)\<close>

record cssToken =
  ct_value :: string
  ct_line :: nat

type_synonym cssTokens = "(string \<times> cssToken) list"

record tokenScan =
  ts_braceDepth :: int
  ts_inRoot :: bool
  ts_rootDepth :: int
  ts_tokens :: cssTokens

definition scanLine :: "tokenScan \<Rightarrow> nat \<times> string \<Rightarrow> tokenScan" where
  "scanLine st il =
     (let raw = snd il; trimmed = trim raw; lineNum = fst il + 1;
          opening = (\<not> ts_inRoot st \<and> rootMatch trimmed);
          inRoot1 = (if opening then True else ts_inRoot st);
          rootDepth1 = (if opening then ts_braceDepth st else ts_rootDepth st);
          depth = ts_braceDepth st + (countChar CHR ''{'' raw - countChar CHR ''}'' raw);
          inRoot2 = (if inRoot1 \<and> depth \<le> rootDepth1 then False else inRoot1);
          st1 = st\<lparr>ts_braceDepth := depth, ts_inRoot := inRoot2, ts_rootDepth := rootDepth1\<rparr>
      in if inRoot2 then
           (case defMatch trimmed of
              Some (name, v) \<Rightarrow>
                st1\<lparr>ts_tokens := AList.update name \<lparr>ct_value = v, ct_line = lineNum\<rparr> (ts_tokens st)\<rparr>
            | None \<Rightarrow> st1)
         else st1)"

definition parseCSSTokens :: "string \<Rightarrow> cssTokens" where
  "parseCSSTokens css =
     ts_tokens (foldl scanLine
       \<lparr>ts_braceDepth = 0, ts_inRoot = False, ts_rootDepth = - 1, ts_tokens = []\<rparr>
       (enumerate 0 (splitLines css)))"

section \<open>The diff engine (diffTokens)\<close>

record addedEntry =
  ad_name :: string
  ad_figmaValue :: string

record modifiedEntry =
  mo_name :: string
  mo_cssValue :: string
  mo_figmaValue :: string

record removedEntry =
  rm_name :: string
  rm_cssValue :: string

record diff =
  added :: "addedEntry list"
  modified :: "modifiedEntry list"
  removed :: "removedEntry list"
  unchanged :: "string list"

definition figmaRelevant :: "string \<Rightarrow> bool" where
  "figmaRelevant name =
     (case getTierFromCSSName name of Some t \<Rightarrow> t \<in> set VALID_FIGMA_TIERS | None \<Rightarrow> False)"

text \<open>The first loop of \<^verbatim>\<open>diffTokens\<close>: one entry of the external map against the local ones.\<close>

definition classify :: "cssTokens \<Rightarrow> diff \<Rightarrow> string \<times> string \<Rightarrow> diff" where
  "classify cssRelevant d nv =
     (case map_of cssRelevant (fst nv) of
        None \<Rightarrow> d\<lparr>added := added d @ [\<lparr>ad_name = fst nv, ad_figmaValue = snd nv\<rparr>]\<rparr>
      | Some data \<Rightarrow>
          if ct_value data \<noteq> snd nv
          then d\<lparr>modified := modified d @
                 [\<lparr>mo_name = fst nv, mo_cssValue = ct_value data, mo_figmaValue = snd nv\<rparr>]\<rparr>
          else d\<lparr>unchanged := unchanged d @ [fst nv]\<rparr>)"

definition diffTokens :: "cssTokens \<Rightarrow> figmaToken list \<Rightarrow> diff" where
  "diffTokens cssTokens figmaTokens =
     (let figmaMap = foldl (\<lambda>m t. AList.update (ft_cssName t) (ft_cssValue t) m) [] figmaTokens;
          cssRelevant = foldl (\<lambda>m nd. if figmaRelevant (fst nd) then AList.update (fst nd) (snd nd) m else m)
                          [] cssTokens;
          d = foldl (classify cssRelevant) \<lparr>added = [], modified = [], removed = [], unchanged = []\<rparr> figmaMap
      in d\<lparr>removed := map (\<lambda>nd. \<lparr>rm_name = fst nd, rm_cssValue = ct_value (snd nd)\<rparr>)
                          (filter (\<lambda>nd. map_of figmaMap (fst nd) = None) cssRelevant)\<rparr>)"

section \<open>The dry run (figma-sync-dry-run.js, main)\<close>

text \<open>
  The inputs of a run: the text of the compiled stylesheet (\<open>None\<close> when no candidate
  file exists) and the parsed export file (\<open>None\<close> when the file does not exist). The
  result: the exit code, the architecture errors of the report and the diff, when the
  run reaches that step.
\<close>

record dryRun =
  dr_exit :: nat
  dr_archErrors :: "archError list"
  dr_diff :: "diff option"

definition main_dry_run :: "string option \<Rightarrow> figmaExport option \<Rightarrow> dryRun" where
  "main_dry_run cssFile figmaFile =
     (case cssFile of
        None \<Rightarrow> \<lparr>dr_exit = 0, dr_archErrors = [], dr_diff = None\<rparr>
      | Some css \<Rightarrow>
          (case figmaFile of
             None \<Rightarrow> \<lparr>dr_exit = 1, dr_archErrors = [], dr_diff = None\<rparr>
           | Some json \<Rightarrow>
               (let cssTokens = parseCSSTokens css in
                case parseFigmaExport json of
                  Inl e \<Rightarrow> \<lparr>dr_exit = 1, dr_archErrors = [], dr_diff = None\<rparr>
                | Inr figmaTokens \<Rightarrow>
                    (let archErrors = validateFigmaTiers figmaTokens
                           @ map FigmaCircular (findCycles_sync (buildFigmaGraph figmaTokens))
                     in if length archErrors > 0
                        then \<lparr>dr_exit = 1, dr_archErrors = archErrors, dr_diff = None\<rparr>
                        else \<lparr>dr_exit = 0, dr_archErrors = archErrors,
                               dr_diff = Some (diffTokens cssTokens figmaTokens)\<rparr>))))"

section \<open>The approval workflow and the registry merge (figma-sync-apply.js)\<close>

text \<open>
  The apply script carries its own copies of the normalizer, of \<^verbatim>\<open>parseCSSTokens\<close>, of
  \<^verbatim>\<open>findCycles\<close> and of \<^verbatim>\<open>diffTokens\<close>; they differ from the dry run's in the wording
  of messages only, and the definitions above stand for both.
\<close>

datatype answer = AnsYes | AnsNo | AnsAll | AnsSkip | AnsQuit

text \<open>\<^verbatim>\<open>prompt\<close>: the decision read from one line of operator input.\<close>

definition prompt :: "string \<Rightarrow> answer" where
  "prompt answer =
     (let a = toLowerCase (trim answer) in
      if a = ''a'' then AnsAll
      else if a = ''s'' then AnsSkip
      else if a = ''q'' then AnsQuit
      else if a = ''n'' \<or> a = ''no'' then AnsNo
      else AnsYes)"

record 'a reviewResult =
  rr_approved :: "'a list"
  rr_skipped :: "'a list"
  rr_quit :: bool

text \<open>
  The loop of \<^verbatim>\<open>reviewCategory\<close> over the items still to present. The operator's input
  is the list of the lines still to come; a prompt with no line left never returns, which
  is the result \<open>None\<close>. The result holds the lines not read.
\<close>

fun reviewLoop :: "'a list \<Rightarrow> 'a list \<Rightarrow> 'a list \<Rightarrow> bool \<Rightarrow> bool \<Rightarrow> string list
    \<Rightarrow> ('a reviewResult \<times> string list) option" where
  "reviewLoop [] approved skipped applyAll skipAll answers =
     Some (\<lparr>rr_approved = approved, rr_skipped = skipped, rr_quit = False\<rparr>, answers)"
| "reviewLoop (item # items) approved skipped applyAll skipAll answers =
     (if applyAll then reviewLoop items (approved @ [item]) skipped applyAll skipAll answers
      else if skipAll then reviewLoop items approved (skipped @ [item]) applyAll skipAll answers
      else (case answers of
              [] \<Rightarrow> None
            | line # rest \<Rightarrow>
                (case prompt line of
                   AnsQuit \<Rightarrow>
                     Some (\<lparr>rr_approved = approved, rr_skipped = (skipped @ [item]) @ items,
                            rr_quit = True\<rparr>, rest)
                 | AnsAll \<Rightarrow> reviewLoop items (approved @ [item]) skipped True skipAll rest
                 | AnsSkip \<Rightarrow> reviewLoop items approved (skipped @ [item]) applyAll True rest
                 | AnsYes \<Rightarrow> reviewLoop items (approved @ [item]) skipped applyAll skipAll rest
                 | AnsNo \<Rightarrow> reviewLoop items approved (skipped @ [item]) applyAll skipAll rest)))"

definition reviewCategory :: "'a list \<Rightarrow> string list \<Rightarrow> ('a reviewResult \<times> string list) option" where
  "reviewCategory items answers =
     (if length items = 0
      then Some (\<lparr>rr_approved = [], rr_skipped = [], rr_quit = False\<rparr>, answers)
      else reviewLoop items [] [] False False answers)"

record changelogEntry =
  cl_action :: string
  cl_token :: string
  cl_value :: "string option"
  cl_prev :: "string option"

text \<open>
  The registry: the override map (an object, in insertion order), the removed names and
  the changelog.
\<close>

record registry =
  rg_tokens :: "(string \<times> string) list"
  rg_removed :: "string list"
  rg_changelog :: "changelogEntry list"

text \<open>\<^verbatim>\<open>tokens[name] || null\<close>: the stored value, unless it is missing or the empty text.\<close>

definition lookupOrNull :: "(string \<times> string) list \<Rightarrow> string \<Rightarrow> string option" where
  "lookupOrNull tokens name =
     (case map_of tokens name of None \<Rightarrow> None | Some v \<Rightarrow> if v = [] then None else Some v)"

definition mergeAdded :: "registry \<Rightarrow> addedEntry \<Rightarrow> registry" where
  "mergeAdded r item =
     \<lparr>rg_tokens = AList.update (ad_name item) (ad_figmaValue item) (rg_tokens r),
      rg_removed = removeAll (ad_name item) (rg_removed r),
      rg_changelog = rg_changelog r @
        [\<lparr>cl_action = ''add'', cl_token = ad_name item, cl_value = Some (ad_figmaValue item),
          cl_prev = lookupOrNull (rg_tokens r) (ad_name item)\<rparr>]\<rparr>"

definition mergeUpdated :: "registry \<Rightarrow> modifiedEntry \<Rightarrow> registry" where
  "mergeUpdated r item =
     \<lparr>rg_tokens = AList.update (mo_name item) (mo_figmaValue item) (rg_tokens r),
      rg_removed = rg_removed r,
      rg_changelog = rg_changelog r @
        [\<lparr>cl_action = ''update'', cl_token = mo_name item, cl_value = Some (mo_figmaValue item),
          cl_prev = Some (case lookupOrNull (rg_tokens r) (mo_name item) of
                            Some v \<Rightarrow> v | None \<Rightarrow> mo_cssValue item)\<rparr>]\<rparr>"

definition mergeRemoved :: "registry \<Rightarrow> removedEntry \<Rightarrow> registry" where
  "mergeRemoved r item =
     \<lparr>rg_tokens = AList.delete (rm_name item) (rg_tokens r),
      rg_removed = setAdd (rm_name item) (rg_removed r),
      rg_changelog = rg_changelog r @
        [\<lparr>cl_action = ''remove'', cl_token = rm_name item, cl_value = None,
          cl_prev = lookupOrNull (rg_tokens r) (rm_name item)\<rparr>]\<rparr>"

record changes =
  ch_added :: "addedEntry list"
  ch_updated :: "modifiedEntry list"
  ch_removedFromTheme :: "removedEntry list"

text \<open>
  \<^verbatim>\<open>mergeRegistryChanges\<close>: the three loops start from a copy of the current override map,
  the set of the current removed names and an empty changelog.
\<close>

definition mergeRegistryChanges :: "registry \<Rightarrow> changes \<Rightarrow> registry" where
  "mergeRegistryChanges current chs =
     foldl mergeRemoved
       (foldl mergeUpdated
          (foldl mergeAdded
             \<lparr>rg_tokens = rg_tokens current,
              rg_removed = foldl (\<lambda>s x. setAdd x s) [] (rg_removed current),
              rg_changelog = []\<rparr>
             (ch_added chs))
          (ch_updated chs))
       (ch_removedFromTheme chs)"

text \<open>
  The outcome of the review step of \<^verbatim>\<open>main\<close>: the approved entries of the three
  categories, the count of skipped entries, whether the operator quit, and the input
  lines not read.
\<close>

record approvals =
  ap_added :: "addedEntry list"
  ap_updated :: "modifiedEntry list"
  ap_removed :: "removedEntry list"
  ap_skippedCount :: nat
  ap_quit :: bool
  ap_unread :: "string list"

definition reviewNew :: "addedEntry list \<Rightarrow> approvals \<Rightarrow> approvals option" where
  "reviewNew items ap =
     (if \<not> ap_quit ap \<and> length items > 0 then
        (case reviewCategory items (ap_unread ap) of
           None \<Rightarrow> None
         | Some (result, rest) \<Rightarrow>
             Some (ap\<lparr>ap_added := rr_approved result,
                      ap_skippedCount := ap_skippedCount ap + length (rr_skipped result),
                      ap_quit := (if rr_quit result then True else ap_quit ap),
                      ap_unread := rest\<rparr>))
      else Some ap)"

definition reviewModified :: "modifiedEntry list \<Rightarrow> approvals \<Rightarrow> approvals option" where
  "reviewModified items ap =
     (if \<not> ap_quit ap \<and> length items > 0 then
        (case reviewCategory items (ap_unread ap) of
           None \<Rightarrow> None
         | Some (result, rest) \<Rightarrow>
             Some (ap\<lparr>ap_updated := rr_approved result,
                      ap_skippedCount := ap_skippedCount ap + length (rr_skipped result),
                      ap_quit := (if rr_quit result then True else ap_quit ap),
                      ap_unread := rest\<rparr>))
      else Some ap)"

definition reviewRemoved :: "removedEntry list \<Rightarrow> approvals \<Rightarrow> approvals option" where
  "reviewRemoved items ap =
     (if \<not> ap_quit ap \<and> length items > 0 then
        (case reviewCategory items (ap_unread ap) of
           None \<Rightarrow> None
         | Some (result, rest) \<Rightarrow>
             Some (ap\<lparr>ap_removed := rr_approved result,
                      ap_skippedCount := ap_skippedCount ap + length (rr_skipped result),
                      ap_quit := (if rr_quit result then True else ap_quit ap),
                      ap_unread := rest\<rparr>))
      else Some ap)"

text \<open>Step (g) of \<^verbatim>\<open>main\<close>: the batch path under \<^verbatim>\<open>--yes\<close>, or the three reviews in turn.\<close>

definition review :: "bool \<Rightarrow> diff \<Rightarrow> removedEntry list \<Rightarrow> string list \<Rightarrow> approvals option" where
  "review yes d removableFromTheme answers =
     (if yes then
        Some \<lparr>ap_added = added d, ap_updated = modified d, ap_removed = [],
              ap_skippedCount = length removableFromTheme, ap_quit = False, ap_unread = answers\<rparr>
      else
        (case reviewNew (added d)
                \<lparr>ap_added = [], ap_updated = [], ap_removed = [], ap_skippedCount = 0,
                 ap_quit = False, ap_unread = answers\<rparr> of
           None \<Rightarrow> None
         | Some ap1 \<Rightarrow>
             (case reviewModified (modified d) ap1 of
                None \<Rightarrow> None
              | Some ap2 \<Rightarrow> reviewRemoved removableFromTheme ap2)))"

text \<open>
  A run of the apply script: the exit code, the registry merged and written (the three
  output files are generated from it), \<open>None\<close> when nothing is written, and the number of
  prompts the operator answered.
\<close>

record applyRun =
  ar_exit :: nat
  ar_written :: "registry option"
  ar_prompts :: nat

definition stopped :: "nat \<Rightarrow> applyRun" where
  "stopped code = \<lparr>ar_exit = code, ar_written = None, ar_prompts = 0\<rparr>"

text \<open>
  Steps (f) to (h) of \<^verbatim>\<open>main\<close>, from the diff on. The result \<open>None\<close> is a run left
  waiting at a prompt.
\<close>

definition applyDiff :: "diff \<Rightarrow> registry \<Rightarrow> bool \<Rightarrow> string list \<Rightarrow> applyRun option" where
  "applyDiff d currentRegistry yes answers =
     (if length (added d) = 0 \<and> length (modified d) = 0 then Some (stopped 0)
      else
        (let removableFromTheme =
               filter (\<lambda>r. rm_name r \<in> fst ` set (rg_tokens currentRegistry)) (removed d)
         in case review yes d removableFromTheme answers of
              None \<Rightarrow> None
            | Some ap \<Rightarrow>
                (let asked = length answers - length (ap_unread ap);
                     totalApproved = length (ap_added ap) + length (ap_updated ap) + length (ap_removed ap)
                 in if \<not> yes \<and> ap_quit ap \<and> totalApproved = 0
                    then Some \<lparr>ar_exit = 2, ar_written = None, ar_prompts = asked\<rparr>
                    else if totalApproved = 0
                    then Some \<lparr>ar_exit = 0, ar_written = None, ar_prompts = asked\<rparr>
                    else Some \<lparr>ar_exit = 0,
                           ar_written = Some (mergeRegistryChanges currentRegistry
                             \<lparr>ch_added = ap_added ap, ch_updated = ap_updated ap,
                              ch_removedFromTheme = ap_removed ap\<rparr>),
                           ar_prompts = asked\<rparr>)))"

text \<open>
  \<^verbatim>\<open>main\<close> of the apply script. The inputs: the text of the compiled stylesheet and the
  parsed export file (\<open>None\<close> when the file does not exist), the registry as loaded, the
  \<^verbatim>\<open>--yes\<close> flag and the operator's input lines.
\<close>

definition main_apply :: "string option \<Rightarrow> figmaExport option \<Rightarrow> registry \<Rightarrow> bool \<Rightarrow> string list
    \<Rightarrow> applyRun option" where
  "main_apply cssFile figmaFile currentRegistry yes answers =
     (case cssFile of
        None \<Rightarrow> Some (stopped 1)
      | Some css \<Rightarrow>
          (case figmaFile of
             None \<Rightarrow> Some (stopped 1)
           | Some json \<Rightarrow>
               (let cssTokens = parseCSSTokens css in
                case parseFigmaExport json of
                  Inl e \<Rightarrow> Some (stopped 1)
                | Inr figmaTokens \<Rightarrow>
                    (let archErrors = validateFigmaTiers figmaTokens
                           @ map FigmaCircular (findCycles_sync (buildFigmaGraph figmaTokens))
                     in if length archErrors > 0 then Some (stopped 1)
                        else applyDiff (diffTokens cssTokens figmaTokens) currentRegistry yes answers))))"

section \<open>Cycle detection on a graph whose only cycle joins two tokens\<close>

text \<open>
  The edges that a search follows: references to live nodes. The validator's search
  skips a reference to a name that is not a key of the graph, so its live nodes are the
  keys; the sync scripts' search gives such a name a colour and visits it, so every name
  is live there.
\<close>

definition edgeRel :: "graph \<Rightarrow> string set \<Rightarrow> (string \<times> string) set" where
  "edgeRel g N = {(x, y). y \<in> set (getDeps g x) \<and> y \<in> N}"

text \<open>
  The graph holds the cycle \<open>A \<rightarrow> B \<rightarrow> A\<close> and no other: \<open>A\<close> references \<open>B\<close> once, \<open>B\<close>
  references \<open>A\<close> once, and these are the only two references that lie on a cycle.
\<close>

definition twoCycleOnly :: "graph \<Rightarrow> string set \<Rightarrow> string \<Rightarrow> string \<Rightarrow> bool" where
  "twoCycleOnly g N A B =
     (A \<noteq> B \<and> A \<in> N \<and> B \<in> N
      \<and> count_list (getDeps g A) B = 1 \<and> count_list (getDeps g B) A = 1
      \<and> (\<forall>x y. (x, y) \<in> edgeRel g N \<and> (y, x) \<in> (edgeRel g N)\<^sup>* \<longrightarrow>
            (x = A \<and> y = B) \<or> (x = B \<and> y = A)))"

text \<open>The colour of a name in the colour map; a name the map does not hold counts as white.\<close>

definition col :: "colouring \<Rightarrow> string \<Rightarrow> colour" where
  "col color n = (case map_of color n of Some c \<Rightarrow> c | None \<Rightarrow> WHITE)"

text \<open>
  The explicit stack, top first, as pairs of a node and the index of its next edge. Each
  node but the bottom one was entered from the node below it, by the edge before that
  node's index.
\<close>

fun chain :: "graph \<Rightarrow> string set \<Rightarrow> (string \<times> nat) list \<Rightarrow> bool" where
  "chain g N (f # (n, c) # rest) =
     (0 < c \<and> c \<le> length (getDeps g n) \<and> getDeps g n ! (c - 1) = fst f \<and> fst f \<in> N
      \<and> chain g N ((n, c) # rest))"
| "chain g N [f] = True"
| "chain g N [] = True"

text \<open>The edge from \<open>a\<close> to \<open>b\<close> has been examined: \<open>a\<close> is finished, or on the stack past \<open>b\<close>.\<close>

definition consumed :: "graph \<Rightarrow> (string \<Rightarrow> colour) \<Rightarrow> (string \<times> nat) list \<Rightarrow> string \<Rightarrow> string \<Rightarrow> bool" where
  "consumed g cf stack a b =
     (cf a = BLACK \<or> (\<exists>c. (a, c) \<in> set stack \<and> b \<in> set (take c (getDeps g a))))"

text \<open>In a list of nodes, top first, \<open>b\<close> stands above \<open>a\<close>.\<close>

definition aboveIn :: "string list \<Rightarrow> string \<Rightarrow> string \<Rightarrow> bool" where
  "aboveIn names b a = (\<exists>above below. names = above @ a # below \<and> b \<in> set above)"

text \<open>
  How far the search is with the two edges of the cycle: none examined; one examined and
  its target entered above its source; or both examined and the cycle reported once.
\<close>

definition progress :: "graph \<Rightarrow> string \<Rightarrow> string \<Rightarrow> (string \<Rightarrow> colour) \<Rightarrow> string list list
    \<Rightarrow> (string \<times> nat) list \<Rightarrow> bool" where
  "progress g A B cf cycles stack =
     ((cycles = [] \<and> \<not> consumed g cf stack A B \<and> \<not> consumed g cf stack B A)
      \<or> (cycles = [] \<and> consumed g cf stack A B \<and> \<not> consumed g cf stack B A
          \<and> aboveIn (map fst stack) B A)
      \<or> (cycles = [] \<and> \<not> consumed g cf stack A B \<and> consumed g cf stack B A
          \<and> aboveIn (map fst stack) A B)
      \<or> ((cycles = [[A, B, A]] \<or> cycles = [[B, A, B]])
          \<and> consumed g cf stack A B \<and> consumed g cf stack B A))"

definition searchInv :: "graph \<Rightarrow> string set \<Rightarrow> string \<Rightarrow> string \<Rightarrow> (string \<Rightarrow> colour) \<Rightarrow> string list list
    \<Rightarrow> (string \<times> nat) list \<Rightarrow> bool" where
  "searchInv g N A B cf cycles stack =
     (distinct (map fst stack) \<and> (\<forall>n. cf n = GRAY \<longleftrightarrow> n \<in> fst ` set stack)
      \<and> chain g N stack \<and> progress g A B cf cycles stack)"

text \<open>
  The stack of the sync scripts' search: each frame carries the path from the start to
  its node.
\<close>

definition absStack :: "frame list \<Rightarrow> (string \<times> nat) list" where
  "absStack stack = map (\<lambda>f. (fst f, snd (snd f))) stack"

fun pathsOK :: "frame list \<Rightarrow> bool" where
  "pathsOK [] = True"
| "pathsOK (f # rest) = (fst (snd f) = rev (fst f # map fst rest) \<and> pathsOK rest)"

text \<open>
  What a search of the sync scripts leaves behind: an empty stack, no node turned white,
  and the colour map extended at its end only.
\<close>

definition searchDone :: "graph \<Rightarrow> string \<Rightarrow> string \<Rightarrow> colouring \<Rightarrow> colouring \<times> string list list \<Rightarrow> bool" where
  "searchDone g A B color r =
     (searchInv g UNIV A B (col (fst r)) (snd r) []
      \<and> (\<forall>n. col color n \<noteq> WHITE \<longrightarrow> col (fst r) n \<noteq> WHITE)
      \<and> (distinct (map fst color) \<longrightarrow> distinct (map fst (fst r)))
      \<and> (\<exists>ext. map fst (fst r) = map fst color @ ext))"

section \<open>The operator's answers to a review\<close>

text \<open>Lines that decide one entry each: every line is a yes or a no.\<close>

definition decided :: "string list \<Rightarrow> bool" where
  "decided lines = list_all (\<lambda>l. prompt l = AnsYes \<or> prompt l = AnsNo) lines"

text \<open>
  Of the entries presented in turn, one per line, those answered with a yes, and those
  answered with a no.
\<close>

definition accepted :: "'a list \<Rightarrow> string list \<Rightarrow> 'a list" where
  "accepted items lines = map fst (filter (\<lambda>p. prompt (snd p) = AnsYes) (zip items lines))"

definition declined :: "'a list \<Rightarrow> string list \<Rightarrow> 'a list" where
  "declined items lines = map fst (filter (\<lambda>p. prompt (snd p) = AnsNo) (zip items lines))"

text \<open>
  Lines that take a category to its end: a decision for every entry (\<open>fin\<close> is empty), or
  decisions for the first entries and then one line, an accept-all or a skip-all, for
  the entry at hand and the rest. A category with no entry takes no line.
\<close>

definition completes :: "'a list \<Rightarrow> string list \<Rightarrow> string list \<Rightarrow> bool" where
  "completes items lines fin =
     (decided lines \<and>
      (case fin of
         [] \<Rightarrow> length lines = length items
       | l # ls \<Rightarrow> ls = [] \<and> length lines < length items \<and> (prompt l = AnsAll \<or> prompt l = AnsSkip)))"

text \<open>The entries such lines approve.\<close>

definition kept :: "'a list \<Rightarrow> string list \<Rightarrow> string list \<Rightarrow> 'a list" where
  "kept items lines fin =
     accepted items lines
     @ (case fin of [] \<Rightarrow> [] | l # ls \<Rightarrow> if prompt l = AnsAll then drop (length lines) items else [])"

section \<open>Properties\<close>

lemma findTierViolations_set:
  "set (findTierViolations defs) = (\<Union>(name, d) \<in> set defs. set (tokenViolations name d))"
  by (induction defs) auto

lemma parseLine_refs:
  assumes "\<forall>nd \<in> set (tokenDefs st). td_refs (snd nd) = extractVarRefs (td_value (snd nd))"
  shows "\<forall>nd \<in> set (tokenDefs (parseLine st il)). td_refs (snd nd) = extractVarRefs (td_value (snd nd))"
  using assms by (auto simp: parseLine_def Let_def split: option.splits)

lemma foldl_parseLine_refs:
  "\<forall>nd \<in> set (tokenDefs st). td_refs (snd nd) = extractVarRefs (td_value (snd nd)) \<Longrightarrow>
   \<forall>nd \<in> set (tokenDefs (foldl parseLine st ils)). td_refs (snd nd) = extractVarRefs (td_value (snd nd))"
proof (induction ils arbitrary: st)
  case Nil
  then show ?case by simp
next
  case (Cons il ils)
  from Cons.IH[OF parseLine_refs[OF Cons.prems]] show ?case by simp
qed

text \<open>The references kept with a parsed definition are the references of its value.\<close>

lemma parseCSS_refs:
  "(name, d) \<in> set (tokenDefs (parseCSS css)) \<Longrightarrow> td_refs d = extractVarRefs (td_value d)"
  using foldl_parseLine_refs[of initialState "enumerate 0 (splitLines css)"]
  by (fastforce simp: parseCSS_def initialState_def)

text \<open>
  C2. For a definition whose name has the primitive prefix, every reference in its value
  is reported by \<^const>\<open>findTierViolations\<close> as a violation naming the token, the reference,
  the primitive tier, the tier of the reference (whatever it is) and the line. For the
  definitions parsed from a stylesheet, the references are those of the value, the
  violation is in the error list of the report, and the validator exits with 1.
\<close>

theorem primitive_refs_all_reported:
  assumes "(name, d) \<in> set defs" and "getTier name = Primitive" and "dep \<in> set (td_refs d)"
  shows "\<lparr>v_token = name, v_dep = dep, v_tokenTier = Primitive,
          v_depTier = getTier dep, v_line = td_line d\<rparr> \<in> set (findTierViolations defs)
       \<and> (defs = tokenDefs (parseCSS css) \<longrightarrow>
            td_refs d = extractVarRefs (td_value d)
            \<and> TierViolation \<lparr>v_token = name, v_dep = dep, v_tokenTier = Primitive,
                  v_depTier = getTier dep, v_line = td_line d\<rparr> \<in> set (rp_errors (compileReport css))
            \<and> fst (main (CssText css)) = 1)"
proof -
  have "\<lparr>v_token = name, v_dep = dep, v_tokenTier = Primitive,
          v_depTier = getTier dep, v_line = td_line d\<rparr> \<in> set (tokenViolations name d)"
    using assms(2,3) by (auto simp: tokenViolations_def)
  with assms(1) have v: "\<lparr>v_token = name, v_dep = dep, v_tokenTier = Primitive,
          v_depTier = getTier dep, v_line = td_line d\<rparr> \<in> set (findTierViolations defs)"
    unfolding findTierViolations_set by blast
  have "td_refs d = extractVarRefs (td_value d)
      \<and> TierViolation \<lparr>v_token = name, v_dep = dep, v_tokenTier = Primitive,
            v_depTier = getTier dep, v_line = td_line d\<rparr> \<in> set (rp_errors (compileReport css))
      \<and> fst (main (CssText css)) = 1"
    if defs: "defs = tokenDefs (parseCSS css)"
  proof -
    from assms(1) defs have "td_refs d = extractVarRefs (td_value d)" by (simp add: parseCSS_refs)
    moreover from v defs have e: "TierViolation \<lparr>v_token = name, v_dep = dep, v_tokenTier = Primitive,
            v_depTier = getTier dep, v_line = td_line d\<rparr> \<in> set (rp_errors (compileReport css))"
      by (simp add: compileReport_def Let_def)
    moreover from e have "rp_errors (compileReport css) \<noteq> []" by auto
    then have "fst (main (CssText css)) = 1" by (simp add: main_def Let_def)
    ultimately show ?thesis by simp
  qed
  with v show ?thesis by simp
qed

theorem primitive_refs_all_reported_witness:
  "tokenDefs (parseCSS ('':root {'' @ [CHR 0x0A] @ ''  --primitive-a: var(--semantic-b);'' @ [CHR 0x0A] @ ''}''))
     = [(''--primitive-a'', \<lparr>td_value = ''var(--semantic-b)'', td_refs = [''--semantic-b''],
          td_line = 2, td_layer = None\<rparr>)]
   \<and> TierViolation \<lparr>v_token = ''--primitive-a'', v_dep = ''--semantic-b'', v_tokenTier = Primitive,
        v_depTier = Semantic, v_line = 2\<rparr>
     \<in> set (rp_errors (compileReport
          ('':root {'' @ [CHR 0x0A] @ ''  --primitive-a: var(--semantic-b);'' @ [CHR 0x0A] @ ''}'')))
   \<and> fst (main (CssText ('':root {'' @ [CHR 0x0A] @ ''  --primitive-a: var(--semantic-b);'' @ [CHR 0x0A] @ ''}''))) = 1"
proof -
  let ?css = "'':root {'' @ [CHR 0x0A] @ ''  --primitive-a: var(--semantic-b);'' @ [CHR 0x0A] @ ''}''"
  let ?d = "\<lparr>td_value = ''var(--semantic-b)'', td_refs = [''--semantic-b''], td_line = 2, td_layer = None\<rparr>"
  have p: "tokenDefs (parseCSS ?css) = [(''--primitive-a'', ?d)]"
    by code_simp
  have t: "getTier ''--primitive-a'' = Primitive" "getTier ''--semantic-b'' = Semantic"
    by (simp_all add: getTier_def startsWith_def)
  from primitive_refs_all_reported[of "''--primitive-a''" ?d "tokenDefs (parseCSS ?css)" "''--semantic-b''" ?css]
  show ?thesis
    unfolding p using t by simp
qed

text \<open>
  C3. When the stylesheet was read, the validator exits with 0 exactly when the compiled
  error list is empty and with 1 otherwise, whatever the warning list holds. The error
  list is empty exactly when no reference is missing, no cycle is found, no tier is
  violated and no rule uses a primitive directly; orphans and unused semantics are
  warnings only.
\<close>

theorem exit_code_by_errors:
  "fst (main (CssText css)) = (if rp_errors (compileReport css) = [] then 0 else 1)
   \<and> (rp_errors (compileReport css) = [] \<longleftrightarrow>
        findMissingRefs (tokenDefs (parseCSS css)) (ruleUsages (parseCSS css)) = []
        \<and> findCycles (buildGraph (tokenDefs (parseCSS css))) = []
        \<and> findTierViolations (tokenDefs (parseCSS css)) = []
        \<and> primInRules (parseCSS css) = [])
   \<and> rp_warnings (compileReport css)
      = map OrphanToken (findOrphans (tokenDefs (parseCSS css)) (buildGraph (tokenDefs (parseCSS css)))
                           (ruleUsages (parseCSS css)))
        @ map UnusedSemantic (findUnusedSemantics (tokenDefs (parseCSS css))
                           (buildGraph (tokenDefs (parseCSS css))) (ruleUsages (parseCSS css)))"
  by (simp add: main_def compileReport_def Let_def)

text \<open>
  C10. At the approval prompt every answer that is not, after trimming and lowering,
  one of \<open>a\<close>, \<open>s\<close>, \<open>q\<close>, \<open>n\<close>, \<open>no\<close> is an acceptance, the empty answer among them;
  a rejection takes \<open>n\<close> or \<open>no\<close>; and an acceptance approves the entry presented.
\<close>

theorem prompt_defaults_to_yes:
  "(prompt line = AnsYes \<longleftrightarrow> toLowerCase (trim line) \<notin> {''a'', ''s'', ''q'', ''n'', ''no''})
   \<and> prompt [] = AnsYes
   \<and> (prompt line = AnsNo \<longleftrightarrow> toLowerCase (trim line) \<in> {''n'', ''no''})
   \<and> (prompt line = AnsYes \<longrightarrow>
        reviewLoop (item # items) approved skipped False False (line # rest)
        = reviewLoop items (approved @ [item]) skipped False False rest)"
proof -
  have "prompt [] = AnsYes"
    by (simp add: prompt_def trim_def toLowerCase_def)
  moreover have "prompt line = AnsYes \<longleftrightarrow> toLowerCase (trim line) \<notin> {''a'', ''s'', ''q'', ''n'', ''no''}"
    by (simp add: prompt_def Let_def)
  moreover have "prompt line = AnsNo \<longleftrightarrow> toLowerCase (trim line) \<in> {''n'', ''no''}"
    by (simp add: prompt_def Let_def)
  moreover have "prompt line = AnsYes \<Longrightarrow>
      reviewLoop (item # items) approved skipped False False (line # rest)
      = reviewLoop items (approved @ [item]) skipped False False rest"
    by simp
  ultimately show ?thesis by blast
qed

theorem prompt_defaults_to_yes_witness:
  "prompt ''maybe'' = AnsYes
   \<and> reviewLoop [Suc 0, 2] [] [] False False [''maybe'', ''N'']
     = Some (\<lparr>rr_approved = [Suc 0], rr_skipped = [2], rr_quit = False\<rparr>, [])"
proof -
  have y: "prompt ''maybe'' = AnsYes" by code_simp
  have n: "prompt ''N'' = AnsNo" by code_simp
  from y prompt_defaults_to_yes[of "''maybe''" "Suc 0" "[2]" "[]" "[]" "[''N'']"]
  have "reviewLoop [Suc 0, 2] [] [] False False [''maybe'', ''N'']
      = reviewLoop [2] [Suc 0] [] False False [''N'']"
    by simp
  with y n show ?thesis by simp
qed

lemma foldl_mergeAdded_log:
  "length (rg_changelog (foldl mergeAdded r xs)) = length (rg_changelog r) + length xs"
  by (induction xs arbitrary: r) (auto simp: mergeAdded_def)

lemma foldl_mergeUpdated_log:
  "length (rg_changelog (foldl mergeUpdated r xs)) = length (rg_changelog r) + length xs"
  by (induction xs arbitrary: r) (auto simp: mergeUpdated_def)

lemma foldl_mergeRemoved_log:
  "length (rg_changelog (foldl mergeRemoved r xs)) = length (rg_changelog r) + length xs"
  by (induction xs arbitrary: r) (auto simp: mergeRemoved_def)

text \<open>
  The changelog returned by the merge has one entry per approved entry, and does not
  depend on the changelog of the loaded registry.
\<close>

lemma merge_changelog_entries:
  "length (rg_changelog (mergeRegistryChanges current chs))
     = length (ch_added chs) + length (ch_updated chs) + length (ch_removedFromTheme chs)
   \<and> rg_changelog (mergeRegistryChanges current chs)
     = rg_changelog (mergeRegistryChanges (current\<lparr>rg_changelog := []\<rparr>) chs)"
  by (simp add: mergeRegistryChanges_def foldl_mergeAdded_log foldl_mergeUpdated_log foldl_mergeRemoved_log)

text \<open>
  C7. The changelog that \<^const>\<open>mergeRegistryChanges\<close> returns starts empty: an entry of the
  loaded registry's changelog is not in the registry written back. Here the loaded
  registry holds one changelog entry and one entry is approved.
\<close>

theorem merge_drops_loaded_changelog:
  "rg_changelog (mergeRegistryChanges
      \<lparr>rg_tokens = [(''--semantic-a'', ''red'')], rg_removed = [],
       rg_changelog = [\<lparr>cl_action = ''add'', cl_token = ''--semantic-a'', cl_value = Some ''red'',
                        cl_prev = None\<rparr>]\<rparr>
      \<lparr>ch_added = [\<lparr>ad_name = ''--semantic-b'', ad_figmaValue = ''blue''\<rparr>], ch_updated = [],
       ch_removedFromTheme = []\<rparr>)
   = [\<lparr>cl_action = ''add'', cl_token = ''--semantic-b'', cl_value = Some ''blue'', cl_prev = None\<rparr>]"
  by (simp add: mergeRegistryChanges_def mergeAdded_def lookupOrNull_def)

lemma classify_added_names:
  "ad_name ` set (added (foldl (classify cr) d xs)) \<subseteq> ad_name ` set (added d) \<union> fst ` set xs"
proof (induction xs arbitrary: d)
  case Nil
  then show ?case by simp
next
  case (Cons x xs)
  have "ad_name ` set (added (classify cr d x)) \<subseteq> ad_name ` set (added d) \<union> {fst x}"
    by (auto simp: classify_def split: option.splits)
  with Cons[of "classify cr d x"] show ?case by auto
qed

lemma classify_modified_names:
  "mo_name ` set (modified (foldl (classify cr) d xs)) \<subseteq> mo_name ` set (modified d) \<union> fst ` set xs"
proof (induction xs arbitrary: d)
  case Nil
  then show ?case by simp
next
  case (Cons x xs)
  have "mo_name ` set (modified (classify cr d x)) \<subseteq> mo_name ` set (modified d) \<union> {fst x}"
    by (auto simp: classify_def split: option.splits)
  with Cons[of "classify cr d x"] show ?case by auto
qed

text \<open>The names the diff reports as removed are neither added nor modified.\<close>

lemma diffTokens_removed_apart:
  assumes "r \<in> set (removed (diffTokens cssTokens figmaTokens))"
  shows "rm_name r \<notin> ad_name ` set (added (diffTokens cssTokens figmaTokens))
       \<and> rm_name r \<notin> mo_name ` set (modified (diffTokens cssTokens figmaTokens))"
proof -
  define figmaMap where "figmaMap = foldl (\<lambda>m t. AList.update (ft_cssName t) (ft_cssValue t) m) [] figmaTokens"
  define cssRelevant where "cssRelevant =
    foldl (\<lambda>m nd. if figmaRelevant (fst nd) then AList.update (fst nd) (snd nd) m else m) [] cssTokens"
  define d where "d = foldl (classify cssRelevant) \<lparr>added = [], modified = [], removed = [], unchanged = []\<rparr> figmaMap"
  have a: "added (diffTokens cssTokens figmaTokens) = added d"
    and m: "modified (diffTokens cssTokens figmaTokens) = modified d"
    and r: "removed (diffTokens cssTokens figmaTokens)
        = map (\<lambda>nd. \<lparr>rm_name = fst nd, rm_cssValue = ct_value (snd nd)\<rparr>)
            (filter (\<lambda>nd. map_of figmaMap (fst nd) = None) cssRelevant)"
    by (simp_all add: diffTokens_def Let_def figmaMap_def cssRelevant_def d_def)
  from assms r have "map_of figmaMap (rm_name r) = None" by auto
  then have notin: "rm_name r \<notin> fst ` set figmaMap" by (simp add: map_of_eq_None_iff)
  have "ad_name ` set (added d) \<subseteq> fst ` set figmaMap"
    using classify_added_names[of cssRelevant "\<lparr>added = [], modified = [], removed = [], unchanged = []\<rparr>" figmaMap]
    by (simp add: d_def)
  moreover have "mo_name ` set (modified d) \<subseteq> fst ` set figmaMap"
    using classify_modified_names[of cssRelevant "\<lparr>added = [], modified = [], removed = [], unchanged = []\<rparr>" figmaMap]
    by (simp add: d_def)
  ultimately show ?thesis using notin a m by auto
qed

lemma foldl_mergeAdded_keeps:
  "n \<notin> ad_name ` set xs \<Longrightarrow> map_of (rg_tokens (foldl mergeAdded r xs)) n = map_of (rg_tokens r) n"
  by (induction xs arbitrary: r) (auto simp: mergeAdded_def update_conv')

lemma foldl_mergeUpdated_keeps:
  "n \<notin> mo_name ` set xs \<Longrightarrow> map_of (rg_tokens (foldl mergeUpdated r xs)) n = map_of (rg_tokens r) n"
  by (induction xs arbitrary: r) (auto simp: mergeUpdated_def update_conv')

lemma foldl_mergeAdded_removed: "set (rg_removed (foldl mergeAdded r xs)) \<subseteq> set (rg_removed r)"
proof (induction xs arbitrary: r)
  case Nil
  then show ?case by simp
next
  case (Cons x xs)
  have "set (rg_removed (foldl mergeAdded (mergeAdded r x) xs)) \<subseteq> set (rg_removed (mergeAdded r x))"
    by (rule Cons.IH)
  also have "\<dots> \<subseteq> set (rg_removed r)" by (auto simp: mergeAdded_def)
  finally show ?case by simp
qed

lemma foldl_mergeUpdated_removed: "rg_removed (foldl mergeUpdated r xs) = rg_removed r"
  by (induction xs arbitrary: r) (auto simp: mergeUpdated_def)

lemma foldl_mergeAdded_actions:
  "cl_action ` set (rg_changelog (foldl mergeAdded r xs)) \<subseteq> cl_action ` set (rg_changelog r) \<union> {''add''}"
proof (induction xs arbitrary: r)
  case Nil
  then show ?case by auto
next
  case (Cons x xs)
  have "cl_action ` set (rg_changelog (foldl mergeAdded (mergeAdded r x) xs))
      \<subseteq> cl_action ` set (rg_changelog (mergeAdded r x)) \<union> {''add''}"
    by (rule Cons.IH)
  also have "\<dots> \<subseteq> cl_action ` set (rg_changelog r) \<union> {''add''}" by (auto simp: mergeAdded_def)
  finally show ?case by auto
qed

lemma foldl_mergeUpdated_actions:
  "cl_action ` set (rg_changelog (foldl mergeUpdated r xs)) \<subseteq> cl_action ` set (rg_changelog r) \<union> {''update''}"
proof (induction xs arbitrary: r)
  case Nil
  then show ?case by auto
next
  case (Cons x xs)
  have "cl_action ` set (rg_changelog (foldl mergeUpdated (mergeUpdated r x) xs))
      \<subseteq> cl_action ` set (rg_changelog (mergeUpdated r x)) \<union> {''update''}"
    by (rule Cons.IH)
  also have "\<dots> \<subseteq> cl_action ` set (rg_changelog r) \<union> {''update''}" by (auto simp: mergeUpdated_def)
  finally show ?case by auto
qed

lemma set_foldl_setAdd: "set (foldl (\<lambda>s x. setAdd x s) acc xs) = set acc \<union> set xs"
  by (induction xs arbitrary: acc) (auto simp: setAdd_def)

text \<open>
  C6. Under \<^verbatim>\<open>--yes\<close>, when the diff holds a new or a modified entry, the run asks
  nothing and writes the registry merged with all new and all modified entries and with
  no removed entry. Every name the diff reports as removed keeps its override, no name
  joins the removed set, and the changelog written has no removal.
\<close>

theorem batch_mode_never_removes:
  assumes "d = diffTokens cssTokens figmaTokens" and "added d \<noteq> [] \<or> modified d \<noteq> []"
    and "w = mergeRegistryChanges reg \<lparr>ch_added = added d, ch_updated = modified d, ch_removedFromTheme = []\<rparr>"
  shows "review True d removable answers
           = Some \<lparr>ap_added = added d, ap_updated = modified d, ap_removed = [],
                   ap_skippedCount = length removable, ap_quit = False, ap_unread = answers\<rparr>
       \<and> applyDiff d reg True answers = Some \<lparr>ar_exit = 0, ar_written = Some w, ar_prompts = 0\<rparr>
       \<and> (\<forall>r \<in> set (removed d). map_of (rg_tokens w) (rm_name r) = map_of (rg_tokens reg) (rm_name r))
       \<and> set (rg_removed w) \<subseteq> set (rg_removed reg)
       \<and> ''remove'' \<notin> cl_action ` set (rg_changelog w)"
proof -
  have rv: "review True d removable answers
           = Some \<lparr>ap_added = added d, ap_updated = modified d, ap_removed = [],
                   ap_skippedCount = length removable, ap_quit = False, ap_unread = answers\<rparr>"
    by (simp add: review_def)
  have ad: "applyDiff d reg True answers = Some \<lparr>ar_exit = 0, ar_written = Some w, ar_prompts = 0\<rparr>"
    using assms(2,3) by (auto simp: applyDiff_def review_def Let_def)
  have w: "w = foldl mergeUpdated (foldl mergeAdded
             \<lparr>rg_tokens = rg_tokens reg, rg_removed = foldl (\<lambda>s x. setAdd x s) [] (rg_removed reg),
              rg_changelog = []\<rparr> (added d)) (modified d)"
    by (simp add: assms(3) mergeRegistryChanges_def)
  have keep: "map_of (rg_tokens w) (rm_name r) = map_of (rg_tokens reg) (rm_name r)"
    if "r \<in> set (removed d)" for r
  proof -
    from that have "rm_name r \<notin> ad_name ` set (added d)" "rm_name r \<notin> mo_name ` set (modified d)"
      using diffTokens_removed_apart[of r cssTokens figmaTokens] assms(1) by auto
    then show ?thesis
      by (simp add: w foldl_mergeUpdated_keeps foldl_mergeAdded_keeps)
  qed
  have rem: "set (rg_removed w) \<subseteq> set (rg_removed reg)"
    using foldl_mergeAdded_removed[of "\<lparr>rg_tokens = rg_tokens reg,
        rg_removed = foldl (\<lambda>s x. setAdd x s) [] (rg_removed reg), rg_changelog = []\<rparr>" "added d"]
    by (simp add: w foldl_mergeUpdated_removed set_foldl_setAdd)
  have "cl_action ` set (rg_changelog w) \<subseteq> {''add'', ''update''}"
    using foldl_mergeUpdated_actions[of "foldl mergeAdded
             \<lparr>rg_tokens = rg_tokens reg, rg_removed = foldl (\<lambda>s x. setAdd x s) [] (rg_removed reg),
              rg_changelog = []\<rparr> (added d)" "modified d"]
      foldl_mergeAdded_actions[of "\<lparr>rg_tokens = rg_tokens reg,
        rg_removed = foldl (\<lambda>s x. setAdd x s) [] (rg_removed reg), rg_changelog = []\<rparr>" "added d"]
    unfolding w by auto
  then have act: "''remove'' \<notin> cl_action ` set (rg_changelog w)" by auto
  from rv ad keep rem act show ?thesis by blast
qed

theorem batch_mode_never_removes_witness:
  "applyDiff
     (diffTokens [(''--semantic-old'', \<lparr>ct_value = ''red'', ct_line = 2\<rparr>)]
        [\<lparr>ft_cssName = ''--primitive-n'', ft_cssValue = ''1'', ft_figmaName = ''primitive.n'',
          ft_figmaValue = ''1'', ft_tier = Some Primitive\<rparr>])
     \<lparr>rg_tokens = [(''--semantic-old'', ''blue'')], rg_removed = [], rg_changelog = []\<rparr> True []
   = Some \<lparr>ar_exit = 0,
       ar_written = Some \<lparr>rg_tokens = [(''--semantic-old'', ''blue''), (''--primitive-n'', ''1'')],
         rg_removed = [],
         rg_changelog = [\<lparr>cl_action = ''add'', cl_token = ''--primitive-n'', cl_value = Some ''1'',
                          cl_prev = None\<rparr>]\<rparr>,
       ar_prompts = 0\<rparr>
   \<and> removed (diffTokens [(''--semantic-old'', \<lparr>ct_value = ''red'', ct_line = 2\<rparr>)]
        [\<lparr>ft_cssName = ''--primitive-n'', ft_cssValue = ''1'', ft_figmaName = ''primitive.n'',
          ft_figmaValue = ''1'', ft_tier = Some Primitive\<rparr>])
     = [\<lparr>rm_name = ''--semantic-old'', rm_cssValue = ''red''\<rparr>]"
proof -
  have d: "diffTokens [(''--semantic-old'', \<lparr>ct_value = ''red'', ct_line = 2\<rparr>)]
        [\<lparr>ft_cssName = ''--primitive-n'', ft_cssValue = ''1'', ft_figmaName = ''primitive.n'',
          ft_figmaValue = ''1'', ft_tier = Some Primitive\<rparr>]
      = \<lparr>added = [\<lparr>ad_name = ''--primitive-n'', ad_figmaValue = ''1''\<rparr>], modified = [],
         removed = [\<lparr>rm_name = ''--semantic-old'', rm_cssValue = ''red''\<rparr>], unchanged = []\<rparr>"
    by (simp add: diffTokens_def classify_def figmaRelevant_def getTierFromCSSName_def
        startsWith_def VALID_FIGMA_TIERS_def)
  have m: "mergeRegistryChanges \<lparr>rg_tokens = [(''--semantic-old'', ''blue'')], rg_removed = [], rg_changelog = []\<rparr>
        \<lparr>ch_added = [\<lparr>ad_name = ''--primitive-n'', ad_figmaValue = ''1''\<rparr>], ch_updated = [],
         ch_removedFromTheme = []\<rparr>
      = \<lparr>rg_tokens = [(''--semantic-old'', ''blue''), (''--primitive-n'', ''1'')], rg_removed = [],
         rg_changelog = [\<lparr>cl_action = ''add'', cl_token = ''--primitive-n'', cl_value = Some ''1'',
                          cl_prev = None\<rparr>]\<rparr>"
    by (simp add: mergeRegistryChanges_def mergeAdded_def lookupOrNull_def)
  have h: "added (diffTokens [(''--semantic-old'', \<lparr>ct_value = ''red'', ct_line = 2\<rparr>)]
        [\<lparr>ft_cssName = ''--primitive-n'', ft_cssValue = ''1'', ft_figmaName = ''primitive.n'',
          ft_figmaValue = ''1'', ft_tier = Some Primitive\<rparr>]) \<noteq> []
      \<or> modified (diffTokens [(''--semantic-old'', \<lparr>ct_value = ''red'', ct_line = 2\<rparr>)]
        [\<lparr>ft_cssName = ''--primitive-n'', ft_cssValue = ''1'', ft_figmaName = ''primitive.n'',
          ft_figmaValue = ''1'', ft_tier = Some Primitive\<rparr>]) \<noteq> []"
    by (simp add: d)
  from batch_mode_never_removes[
      where cssTokens = "[(''--semantic-old'', \<lparr>ct_value = ''red'', ct_line = 2\<rparr>)]"
        and figmaTokens = "[\<lparr>ft_cssName = ''--primitive-n'', ft_cssValue = ''1'',
            ft_figmaName = ''primitive.n'', ft_figmaValue = ''1'', ft_tier = Some Primitive\<rparr>]"
        and reg = "\<lparr>rg_tokens = [(''--semantic-old'', ''blue'')], rg_removed = [], rg_changelog = []\<rparr>"
        and answers = "[]" and removable = "[]", OF refl h refl]
  show ?thesis
    by (simp add: d m)
qed

lemma update_fresh: "k \<notin> fst ` set al \<Longrightarrow> AList.update k v al = al @ [(k, v)]"
  by (induction al) auto

lemma foldl_update_distinct:
  "distinct (map f xs) \<Longrightarrow> f ` set xs \<inter> fst ` set acc = {} \<Longrightarrow>
   foldl (\<lambda>m t. AList.update (f t) (h t) m) acc xs = acc @ map (\<lambda>t. (f t, h t)) xs"
proof (induction xs arbitrary: acc)
  case Nil
  then show ?case by simp
next
  case (Cons x xs)
  from Cons.prems have fresh: "f x \<notin> fst ` set acc" by auto
  have "foldl (\<lambda>m t. AList.update (f t) (h t) m) (acc @ [(f x, h x)]) xs
      = (acc @ [(f x, h x)]) @ map (\<lambda>t. (f t, h t)) xs"
    using Cons.prems by (intro Cons.IH) auto
  with fresh show ?case by (simp add: update_fresh)
qed

lemma foldl_relevant_distinct:
  "distinct (map fst xs) \<Longrightarrow> fst ` set xs \<inter> fst ` set acc = {} \<Longrightarrow> \<forall>n \<in> fst ` set xs. figmaRelevant n \<Longrightarrow>
   foldl (\<lambda>m nd. if figmaRelevant (fst nd) then AList.update (fst nd) (snd nd) m else m) acc xs = acc @ xs"
proof (induction xs arbitrary: acc)
  case Nil
  then show ?case by simp
next
  case (Cons x xs)
  from Cons.prems have fresh: "fst x \<notin> fst ` set acc" and rel: "figmaRelevant (fst x)" by auto
  have "foldl (\<lambda>m nd. if figmaRelevant (fst nd) then AList.update (fst nd) (snd nd) m else m)
          (acc @ [x]) xs = (acc @ [x]) @ xs"
    using Cons.prems by (intro Cons.IH) auto
  with fresh rel show ?case by (simp add: update_fresh)
qed

lemma classify_all_unchanged:
  "\<forall>nv \<in> set xs. \<exists>data. map_of cr (fst nv) = Some data \<and> ct_value data = snd nv \<Longrightarrow>
   foldl (classify cr) d xs = d\<lparr>unchanged := unchanged d @ map fst xs\<rparr>"
proof (induction xs arbitrary: d)
  case Nil
  then show ?case by simp
next
  case (Cons x xs)
  from Cons.prems obtain data where "map_of cr (fst x) = Some data" "ct_value data = snd x" by auto
  then have "classify cr d x = d\<lparr>unchanged := unchanged d @ [fst x]\<rparr>"
    by (simp add: classify_def)
  moreover have "foldl (classify cr) (d\<lparr>unchanged := unchanged d @ [fst x]\<rparr>) xs
      = (d\<lparr>unchanged := unchanged d @ [fst x]\<rparr>)\<lparr>unchanged := unchanged (d\<lparr>unchanged := unchanged d @ [fst x]\<rparr>) @ map fst xs\<rparr>"
    using Cons.prems by (intro Cons.IH) auto
  ultimately show ?case by simp
qed

text \<open>
  C9. The diff is a function of its two arguments, so two runs on the same sets give the
  same lists. When the local set (a map: its names are distinct) lies within the tiers
  primitive, semantic and component, and the external list holds the same names, each
  once, with the same values, the diff has no NEW, no MODIFIED and no REMOVED entry and
  lists every name as UNCHANGED.
\<close>

theorem diff_of_set_with_itself:
  assumes "distinct (map fst cssTokens)"
    and "\<forall>n \<in> fst ` set cssTokens. figmaRelevant n"
    and "distinct (map ft_cssName figmaTokens)"
    and "(\<lambda>t. (ft_cssName t, ft_cssValue t)) ` set figmaTokens = (\<lambda>nd. (fst nd, ct_value (snd nd))) ` set cssTokens"
  shows "diffTokens cssTokens figmaTokens
         = \<lparr>added = [], modified = [], removed = [], unchanged = map ft_cssName figmaTokens\<rparr>"
proof -
  define figmaMap where "figmaMap = foldl (\<lambda>m t. AList.update (ft_cssName t) (ft_cssValue t) m) [] figmaTokens"
  define cssRelevant where "cssRelevant =
    foldl (\<lambda>m nd. if figmaRelevant (fst nd) then AList.update (fst nd) (snd nd) m else m) [] cssTokens"
  have fm: "figmaMap = map (\<lambda>t. (ft_cssName t, ft_cssValue t)) figmaTokens"
    unfolding figmaMap_def using foldl_update_distinct[of ft_cssName figmaTokens "[]" ft_cssValue] assms(3)
    by simp
  have cr: "cssRelevant = cssTokens"
    unfolding cssRelevant_def using foldl_relevant_distinct[of cssTokens "[]"] assms(1,2) by simp
  have same: "\<exists>data. map_of cssTokens (fst nv) = Some data \<and> ct_value data = snd nv"
    if "nv \<in> set figmaMap" for nv
  proof -
    from that fm have "nv \<in> (\<lambda>t. (ft_cssName t, ft_cssValue t)) ` set figmaTokens" by auto
    with assms(4) obtain nd where nd: "nd \<in> set cssTokens" "nv = (fst nd, ct_value (snd nd))" by auto
    then have "map_of cssTokens (fst nd) = Some (snd nd)"
      using assms(1) map_of_eq_Some_iff[of cssTokens "fst nd" "snd nd"] by simp
    with nd show ?thesis by simp
  qed
  have cl: "foldl (classify cssRelevant) \<lparr>added = [], modified = [], removed = [], unchanged = []\<rparr> figmaMap
      = \<lparr>added = [], modified = [], removed = [], unchanged = map fst figmaMap\<rparr>"
    using classify_all_unchanged[of figmaMap cssRelevant
        "\<lparr>added = [], modified = [], removed = [], unchanged = []\<rparr>"] same cr
    by simp
  have "map_of figmaMap (fst nd) \<noteq> None" if "nd \<in> set cssTokens" for nd
  proof -
    from that assms(4) have "(fst nd, ct_value (snd nd)) \<in> (\<lambda>t. (ft_cssName t, ft_cssValue t)) ` set figmaTokens"
      by auto
    then have "fst nd \<in> fst ` set figmaMap" using fm by force
    then show ?thesis by (simp add: map_of_eq_None_iff)
  qed
  then have rm: "filter (\<lambda>nd. map_of figmaMap (fst nd) = None) cssRelevant = []"
    using cr by (auto simp: filter_empty_conv)
  have "map fst figmaMap = map ft_cssName figmaTokens" using fm by simp
  with cl rm show ?thesis
    by (simp add: diffTokens_def Let_def figmaMap_def[symmetric] cssRelevant_def[symmetric])
qed

theorem diff_of_set_with_itself_witness:
  "diffTokens [(''--primitive-a'', \<lparr>ct_value = ''1px'', ct_line = 2\<rparr>),
               (''--semantic-b'', \<lparr>ct_value = ''var(--primitive-a)'', ct_line = 3\<rparr>)]
     [\<lparr>ft_cssName = ''--semantic-b'', ft_cssValue = ''var(--primitive-a)'',
       ft_figmaName = ''semantic.b'', ft_figmaValue = ''{primitive.a}'', ft_tier = Some Semantic\<rparr>,
      \<lparr>ft_cssName = ''--primitive-a'', ft_cssValue = ''1px'',
       ft_figmaName = ''primitive.a'', ft_figmaValue = ''1px'', ft_tier = Some Primitive\<rparr>]
   = \<lparr>added = [], modified = [], removed = [], unchanged = [''--semantic-b'', ''--primitive-a'']\<rparr>"
  using diff_of_set_with_itself[
      where cssTokens = "[(''--primitive-a'', \<lparr>ct_value = ''1px'', ct_line = 2\<rparr>),
               (''--semantic-b'', \<lparr>ct_value = ''var(--primitive-a)'', ct_line = 3\<rparr>)]"
        and figmaTokens = "[\<lparr>ft_cssName = ''--semantic-b'', ft_cssValue = ''var(--primitive-a)'',
       ft_figmaName = ''semantic.b'', ft_figmaValue = ''{primitive.a}'', ft_tier = Some Semantic\<rparr>,
      \<lparr>ft_cssName = ''--primitive-a'', ft_cssValue = ''1px'',
       ft_figmaName = ''primitive.a'', ft_figmaValue = ''1px'', ft_tier = Some Primitive\<rparr>]"]
  by (simp add: figmaRelevant_def getTierFromCSSName_def startsWith_def VALID_FIGMA_TIERS_def insert_commute)

lemma convertEntries_tier:
  "convertEntries idx entries = Inr ts \<Longrightarrow> t \<in> set ts \<Longrightarrow>
   ft_tier t = getTierFromFigmaName (ft_figmaName t) \<and> Some (ft_figmaName t) \<in> re_name ` set entries"
proof (induction entries arbitrary: idx ts)
  case Nil
  then show ?case by simp
next
  case (Cons e es)
  from Cons.prems(1) obtain name v ts' where
    e: "re_name e = Some name" "re_value e = Some v"
    and rest: "convertEntries (Suc idx) es = Inr ts'"
    and ts: "ts = \<lparr>ft_cssName = figmaNameToCSSVar name, ft_cssValue = figmaValueToCSS v,
                   ft_figmaName = name, ft_figmaValue = v, ft_tier = getTierFromFigmaName name\<rparr> # ts'"
    by (auto split: option.splits if_splits sum.splits)
  show ?case
  proof (cases "t \<in> set ts'")
    case True
    with Cons.IH[OF rest] show ?thesis by auto
  next
    case False
    with Cons.prems(2) ts e show ?thesis by auto
  qed
qed

lemma convertEntries_names:
  "convertEntries idx entries = Inr ts \<Longrightarrow> map (\<lambda>t. Some (ft_figmaName t)) ts = map re_name entries"
proof (induction entries arbitrary: idx ts)
  case Nil
  then show ?case by simp
next
  case (Cons e es)
  from Cons.prems(1) obtain name v ts' where
    e: "re_name e = Some name" "re_value e = Some v"
    and rest: "convertEntries (Suc idx) es = Inr ts'"
    and ts: "ts = \<lparr>ft_cssName = figmaNameToCSSVar name, ft_cssValue = figmaValueToCSS v,
                   ft_figmaName = name, ft_figmaValue = v, ft_tier = getTierFromFigmaName name\<rparr> # ts'"
    by (auto split: option.splits if_splits sum.splits)
  with Cons.IH[OF rest] show ?case by simp
qed

text \<open>
  C4. When an entry of the external batch has a name whose first segment is not
  \<open>primitive\<close>, \<open>semantic\<close> or \<open>component\<close> (the segment \<open>base\<close> among them), no run computes
  a diff: the dry run reports no diff and the apply run stops with nothing written and
  no prompt. When the stylesheet and the export file are there, both exit with 1, and a
  batch that parses is reported with an unknown-tier error for that name.
\<close>

theorem foreign_tier_blocks_batch:
  assumes "e \<in> set entries" and "re_name e = Some name"
    and "firstSegment name \<notin> {''primitive'', ''semantic'', ''component''}"
  shows "dr_diff (main_dry_run cssFile (Some (TokensArray entries))) = None
       \<and> dr_exit (main_dry_run (Some css) (Some (TokensArray entries))) = 1
       \<and> main_apply (Some css) (Some (TokensArray entries)) reg yes answers = Some (stopped 1)
       \<and> (\<forall>figmaTokens. parseFigmaExport (TokensArray entries) = Inr figmaTokens \<longrightarrow>
            UnknownTier name \<in> set (validateFigmaTiers figmaTokens)
            \<and> UnknownTier name \<in> set (dr_archErrors (main_dry_run (Some css) (Some (TokensArray entries)))))"
proof -
  have bad: "UnknownTier name \<in> set (validateFigmaTiers figmaTokens)"
    if p: "parseFigmaExport (TokensArray entries) = Inr figmaTokens" for figmaTokens
  proof -
    from p have c: "convertEntries 0 entries = Inr figmaTokens" by (simp add: parseFigmaExport_def)
    from assms(1,2) have "Some name \<in> set (map re_name entries)" by force
    with convertEntries_names[OF c] have "Some name \<in> set (map (\<lambda>t. Some (ft_figmaName t)) figmaTokens)"
      by simp
    then obtain t where t: "t \<in> set figmaTokens" "ft_figmaName t = name" by auto
    with convertEntries_tier[OF c t(1)] have "ft_tier t = getTierFromFigmaName name" by simp
    with assms(3) have "ft_tier t = None" by (simp add: getTierFromFigmaName_def Let_def)
    with t have "UnknownTier name \<in> set (validateToken t)" by (simp add: validateToken_def)
    with t(1) show ?thesis by (auto simp: validateFigmaTiers_def)
  qed
  show ?thesis
  proof (cases "parseFigmaExport (TokensArray entries)")
    case (Inl err)
    then show ?thesis
      by (cases cssFile) (simp_all add: main_dry_run_def main_apply_def)
  next
    case (Inr figmaTokens)
    from bad[OF Inr] have ne: "validateFigmaTiers figmaTokens \<noteq> []" by auto
    with Inr bad[OF Inr] show ?thesis
      by (cases cssFile) (simp_all add: main_dry_run_def main_apply_def Let_def)
  qed
qed

theorem foreign_tier_blocks_batch_witness:
  "main_dry_run (Some '':root { }'')
     (Some (TokensArray [\<lparr>re_name = Some ''primitive.a'', re_value = Some ''1px''\<rparr>,
                         \<lparr>re_name = Some ''base.focus.ring'', re_value = Some ''2px''\<rparr>]))
   = \<lparr>dr_exit = 1, dr_archErrors = [UnknownTier ''base.focus.ring''], dr_diff = None\<rparr>
   \<and> main_apply (Some '':root { }'')
     (Some (TokensArray [\<lparr>re_name = Some ''primitive.a'', re_value = Some ''1px''\<rparr>,
                         \<lparr>re_name = Some ''base.focus.ring'', re_value = Some ''2px''\<rparr>]))
     \<lparr>rg_tokens = [], rg_removed = [], rg_changelog = []\<rparr> True []
   = Some \<lparr>ar_exit = 1, ar_written = None, ar_prompts = 0\<rparr>"
proof -
  have fs: "firstSegment ''base.focus.ring'' \<notin> {''primitive'', ''semantic'', ''component''}"
    by (simp add: firstSegment_def)
  have p: "parseFigmaExport (TokensArray [\<lparr>re_name = Some ''primitive.a'', re_value = Some ''1px''\<rparr>,
                         \<lparr>re_name = Some ''base.focus.ring'', re_value = Some ''2px''\<rparr>])
      = Inr [\<lparr>ft_cssName = ''--primitive-a'', ft_cssValue = ''1px'', ft_figmaName = ''primitive.a'',
               ft_figmaValue = ''1px'', ft_tier = Some Primitive\<rparr>,
             \<lparr>ft_cssName = ''--base-focus-ring'', ft_cssValue = ''2px'', ft_figmaName = ''base.focus.ring'',
               ft_figmaValue = ''2px'', ft_tier = None\<rparr>]"
    by (simp add: parseFigmaExport_def trim_def isSpace_def figmaNameToCSSVar_def figmaValueToCSS_def
        braceRef_def getTierFromFigmaName_def firstSegment_def)
  have v: "validateFigmaTiers [\<lparr>ft_cssName = ''--primitive-a'', ft_cssValue = ''1px'', ft_figmaName = ''primitive.a'',
               ft_figmaValue = ''1px'', ft_tier = Some Primitive\<rparr>,
             \<lparr>ft_cssName = ''--base-focus-ring'', ft_cssValue = ''2px'', ft_figmaName = ''base.focus.ring'',
               ft_figmaValue = ''2px'', ft_tier = None\<rparr>] = [UnknownTier ''base.focus.ring'']"
    by (simp add: validateFigmaTiers_def validateToken_def extractFigmaRef_def braceRef_def)
  have c: "findCycles_sync (buildFigmaGraph [\<lparr>ft_cssName = ''--primitive-a'', ft_cssValue = ''1px'', ft_figmaName = ''primitive.a'',
               ft_figmaValue = ''1px'', ft_tier = Some Primitive\<rparr>,
             \<lparr>ft_cssName = ''--base-focus-ring'', ft_cssValue = ''2px'', ft_figmaName = ''base.focus.ring'',
               ft_figmaValue = ''2px'', ft_tier = None\<rparr>]) = []"
    by code_simp
  from foreign_tier_blocks_batch[
      where entries = "[\<lparr>re_name = Some ''primitive.a'', re_value = Some ''1px''\<rparr>,
                         \<lparr>re_name = Some ''base.focus.ring'', re_value = Some ''2px''\<rparr>]"
        and e = "\<lparr>re_name = Some ''base.focus.ring'', re_value = Some ''2px''\<rparr>"
        and name = "''base.focus.ring''" and css = "'':root { }''" and cssFile = "Some '':root { }''"
        and reg = "\<lparr>rg_tokens = [], rg_removed = [], rg_changelog = []\<rparr>" and yes = True and answers = "[]",
      OF _ _ fs]
  show ?thesis
    by (simp add: main_dry_run_def p v c stopped_def)
qed

text \<open>
  A category ends as aborted only after a line read as an abort that follows lines
  saying yes or no.
\<close>

lemma reviewLoop_all_no_quit:
  "reviewLoop items approved skipped applyAll skipAll answers = Some (r, rest) \<Longrightarrow> applyAll \<or> skipAll \<Longrightarrow>
   \<not> rr_quit r \<and> rest = answers"
  by (induction items arbitrary: approved skipped) (auto split: if_splits)

lemma reviewLoop_quit:
  assumes "reviewLoop items approved skipped False False answers = Some (r, rest)" and "rr_quit r"
  shows "\<exists>n. n < length items \<and> n < length answers \<and> prompt (answers ! n) = AnsQuit
          \<and> (\<forall>i<n. prompt (answers ! i) = AnsYes \<or> prompt (answers ! i) = AnsNo)
          \<and> rest = drop (Suc n) answers
          \<and> rr_approved r = approved @ map fst (filter (\<lambda>p. prompt (snd p) = AnsYes) (zip (take n items) answers))
          \<and> rr_skipped r = skipped @ map fst (filter (\<lambda>p. prompt (snd p) = AnsNo) (zip (take n items) answers))
                            @ drop n items"
  using assms
proof (induction items arbitrary: approved skipped answers)
  case Nil
  then show ?case by auto
next
  case (Cons item items)
  from Cons.prems(1) obtain line as where ans: "answers = line # as"
    by (cases answers) auto
  show ?case
  proof (cases "prompt line")
    case AnsQuit
    with Cons.prems(1) ans have "rr_approved r = approved" "rr_skipped r = skipped @ item # items" "rest = as"
      by auto
    with AnsQuit ans show ?thesis
      by (intro exI[of _ 0]) simp
  next
    case AnsAll
    with Cons.prems ans reviewLoop_all_no_quit[of items "approved @ [item]" skipped True False as r rest]
    show ?thesis by simp
  next
    case AnsSkip
    with Cons.prems ans reviewLoop_all_no_quit[of items approved "skipped @ [item]" False True as r rest]
    show ?thesis by simp
  next
    case AnsYes
    with Cons.prems(1) ans have "reviewLoop items (approved @ [item]) skipped False False as = Some (r, rest)"
      by simp
    from Cons.IH[OF this Cons.prems(2)] obtain n where n: "n < length items" "n < length as"
      "prompt (as ! n) = AnsQuit"
      "\<forall>i<n. prompt (as ! i) = AnsYes \<or> prompt (as ! i) = AnsNo"
      "rest = drop (Suc n) as"
      "rr_approved r = (approved @ [item]) @ map fst (filter (\<lambda>p. prompt (snd p) = AnsYes) (zip (take n items) as))"
      "rr_skipped r = skipped @ map fst (filter (\<lambda>p. prompt (snd p) = AnsNo) (zip (take n items) as)) @ drop n items"
      by blast
    have "\<forall>i<Suc n. prompt (answers ! i) = AnsYes \<or> prompt (answers ! i) = AnsNo"
      using n(4) AnsYes ans by (auto simp: less_Suc_eq_0_disj)
    with n ans AnsYes show ?thesis
      by (intro exI[of _ "Suc n"]) simp
  next
    case AnsNo
    with Cons.prems(1) ans have "reviewLoop items approved (skipped @ [item]) False False as = Some (r, rest)"
      by simp
    from Cons.IH[OF this Cons.prems(2)] obtain n where n: "n < length items" "n < length as"
      "prompt (as ! n) = AnsQuit"
      "\<forall>i<n. prompt (as ! i) = AnsYes \<or> prompt (as ! i) = AnsNo"
      "rest = drop (Suc n) as"
      "rr_approved r = approved @ map fst (filter (\<lambda>p. prompt (snd p) = AnsYes) (zip (take n items) as))"
      "rr_skipped r = (skipped @ [item]) @ map fst (filter (\<lambda>p. prompt (snd p) = AnsNo) (zip (take n items) as)) @ drop n items"
      by blast
    have "\<forall>i<Suc n. prompt (answers ! i) = AnsYes \<or> prompt (answers ! i) = AnsNo"
      using n(4) AnsNo ans by (auto simp: less_Suc_eq_0_disj)
    with n ans AnsNo show ?thesis
      by (intro exI[of _ "Suc n"]) simp
  qed
qed

lemma reviewCategory_quit:
  assumes "reviewCategory items answers = Some (r, rest)" and "rr_quit r"
  shows "\<exists>n. n < length items \<and> n < length answers \<and> prompt (answers ! n) = AnsQuit
          \<and> (\<forall>i<n. prompt (answers ! i) = AnsYes \<or> prompt (answers ! i) = AnsNo)
          \<and> rest = drop (Suc n) answers
          \<and> rr_approved r = map fst (filter (\<lambda>p. prompt (snd p) = AnsYes) (zip (take n items) answers))
          \<and> rr_skipped r = map fst (filter (\<lambda>p. prompt (snd p) = AnsNo) (zip (take n items) answers))
                            @ drop n items"
proof -
  from assms have "reviewLoop items [] [] False False answers = Some (r, rest)"
    by (auto simp: reviewCategory_def split: if_splits)
  from reviewLoop_quit[OF this assms(2)] show ?thesis by simp
qed

lemma reviewLoop_applyAll:
  "reviewLoop items approved skipped True skipAll answers
   = Some (\<lparr>rr_approved = approved @ items, rr_skipped = skipped, rr_quit = False\<rparr>, answers)"
  by (induction items arbitrary: approved) auto

lemma reviewLoop_skipAll:
  "reviewLoop items approved skipped False True answers
   = Some (\<lparr>rr_approved = approved, rr_skipped = skipped @ items, rr_quit = False\<rparr>, answers)"
  by (induction items arbitrary: skipped) auto

lemma accepted_Nil [simp]: "accepted items [] = []" "accepted [] lines = []"
  by (simp_all add: accepted_def)

lemma declined_Nil [simp]: "declined items [] = []" "declined [] lines = []"
  by (simp_all add: declined_def)

lemma accepted_Cons:
  "accepted (item # items) (l # ls) = (if prompt l = AnsYes then item # accepted items ls else accepted items ls)"
  by (simp add: accepted_def)

lemma declined_Cons:
  "declined (item # items) (l # ls) = (if prompt l = AnsNo then item # declined items ls else declined items ls)"
  by (simp add: declined_def)

lemma reviewLoop_abort:
  "length pre < length items \<Longrightarrow> decided pre \<Longrightarrow> prompt q = AnsQuit \<Longrightarrow>
   reviewLoop items approved skipped False False (pre @ q # lines)
   = Some (\<lparr>rr_approved = approved @ accepted items pre,
            rr_skipped = skipped @ declined items pre @ drop (length pre) items,
            rr_quit = True\<rparr>, lines)"
proof (induction pre arbitrary: items approved skipped)
  case Nil
  then obtain item rest where "items = item # rest" by (cases items) auto
  with Nil show ?case by simp
next
  case (Cons l pre)
  then obtain item rest where items: "items = item # rest" by (cases items) auto
  from Cons.prems have l: "prompt l = AnsYes \<or> prompt l = AnsNo" and d: "decided pre"
    by (simp_all add: decided_def)
  from Cons.prems items have len: "length pre < length rest" by simp
  from l show ?case
  proof
    assume y: "prompt l = AnsYes"
    with Cons.IH[OF len d Cons.prems(3), of "approved @ [item]" skipped] items
    show ?thesis by (simp add: accepted_Cons declined_Cons)
  next
    assume n: "prompt l = AnsNo"
    with Cons.IH[OF len d Cons.prems(3), of approved "skipped @ [item]"] items
    show ?thesis by (simp add: accepted_Cons declined_Cons)
  qed
qed

lemma reviewLoop_completes:
  "completes items pre fin \<Longrightarrow>
   reviewLoop items approved skipped False False (pre @ fin @ lines)
   = Some (\<lparr>rr_approved = approved @ kept items pre fin,
            rr_skipped = skipped @ declined items pre
              @ (case fin of [] \<Rightarrow> [] | l # ls \<Rightarrow> if prompt l = AnsSkip then drop (length pre) items else []),
            rr_quit = False\<rparr>, lines)"
proof (induction pre arbitrary: items approved skipped)
  case Nil
  show ?case
  proof (cases fin)
    case Nil
    with Nil.prems show ?thesis by (simp add: completes_def kept_def)
  next
    case (Cons l ls)
    with Nil.prems obtain item rest where "items = item # rest" "ls = []"
      "prompt l = AnsAll \<or> prompt l = AnsSkip"
      by (cases items) (auto simp: completes_def)
    with Cons show ?thesis
      by (auto simp: kept_def reviewLoop_applyAll reviewLoop_skipAll)
  qed
next
  case (Cons l pre)
  from Cons.prems obtain item rest where items: "items = item # rest"
    by (cases items) (auto simp: completes_def split: list.splits)
  from Cons.prems have l: "prompt l = AnsYes \<or> prompt l = AnsNo"
    by (simp add: completes_def decided_def)
  from Cons.prems items have c: "completes rest pre fin"
    by (auto simp: completes_def decided_def split: list.splits)
  from l show ?case
  proof
    assume y: "prompt l = AnsYes"
    with Cons.IH[OF c, of "approved @ [item]" skipped] items
    show ?thesis by (auto simp: kept_def accepted_Cons declined_Cons split: list.splits)
  next
    assume n: "prompt l = AnsNo"
    with Cons.IH[OF c, of approved "skipped @ [item]"] items
    show ?thesis by (auto simp: kept_def accepted_Cons declined_Cons split: list.splits)
  qed
qed

lemma completes_Nil: "completes [] pre fin \<Longrightarrow> pre = [] \<and> fin = []"
  by (auto simp: completes_def split: list.splits)

lemma kept_Nil [simp]: "kept [] pre fin = []"
  by (simp add: kept_def split: list.splits)

lemma reviewCategory_abort:
  assumes "length pre < length items" and "decided pre" and "prompt q = AnsQuit"
  shows "reviewCategory items (pre @ q # lines)
         = Some (\<lparr>rr_approved = accepted items pre,
                  rr_skipped = declined items pre @ drop (length pre) items,
                  rr_quit = True\<rparr>, lines)"
proof -
  from assms(1) have "items \<noteq> []" by auto
  with reviewLoop_abort[OF assms, of "[]" "[]" lines] show ?thesis
    by (simp add: reviewCategory_def)
qed

lemma reviewCategory_completes:
  assumes "completes items pre fin"
  shows "\<exists>sk. reviewCategory items (pre @ fin @ lines)
         = Some (\<lparr>rr_approved = kept items pre fin, rr_skipped = sk, rr_quit = False\<rparr>, lines)"
proof (cases "items = []")
  case True
  with assms completes_Nil[of pre fin] show ?thesis
    by (simp add: reviewCategory_def)
next
  case False
  with reviewLoop_completes[OF assms, of "[]" "[]" lines] show ?thesis
    by (simp add: reviewCategory_def)
qed

lemma reviewNew_abort:
  assumes "length pre < length items" and "decided pre" and "prompt q = AnsQuit"
  shows "\<exists>k. reviewNew items \<lparr>ap_added = [], ap_updated = [], ap_removed = [], ap_skippedCount = 0,
                 ap_quit = False, ap_unread = pre @ q # lines\<rparr>
         = Some \<lparr>ap_added = accepted items pre, ap_updated = [], ap_removed = [], ap_skippedCount = k,
                 ap_quit = True, ap_unread = lines\<rparr>"
proof -
  from assms(1) have "items \<noteq> []" by auto
  then show ?thesis
    by (simp add: reviewNew_def reviewCategory_abort[OF assms])
qed

lemma reviewNew_completes:
  assumes "completes items pre fin"
  shows "\<exists>k. reviewNew items \<lparr>ap_added = [], ap_updated = [], ap_removed = [], ap_skippedCount = 0,
                 ap_quit = False, ap_unread = pre @ fin @ lines\<rparr>
         = Some \<lparr>ap_added = kept items pre fin, ap_updated = [], ap_removed = [], ap_skippedCount = k,
                 ap_quit = False, ap_unread = lines\<rparr>"
proof (cases "items = []")
  case True
  with assms completes_Nil[of pre fin] show ?thesis
    by (simp add: reviewNew_def)
next
  case False
  from reviewCategory_completes[OF assms, of lines] obtain sk where
    "reviewCategory items (pre @ fin @ lines)
         = Some (\<lparr>rr_approved = kept items pre fin, rr_skipped = sk, rr_quit = False\<rparr>, lines)"
    by blast
  with False show ?thesis
    by (simp add: reviewNew_def)
qed

lemma reviewModified_abort:
  assumes "length pre < length items" and "decided pre" and "prompt q = AnsQuit"
  shows "\<exists>k. reviewModified items \<lparr>ap_added = A, ap_updated = [], ap_removed = [], ap_skippedCount = c,
                 ap_quit = False, ap_unread = pre @ q # lines\<rparr>
         = Some \<lparr>ap_added = A, ap_updated = accepted items pre, ap_removed = [], ap_skippedCount = k,
                 ap_quit = True, ap_unread = lines\<rparr>"
proof -
  from assms(1) have "items \<noteq> []" by auto
  then show ?thesis
    by (simp add: reviewModified_def reviewCategory_abort[OF assms])
qed

lemma reviewModified_completes:
  assumes "completes items pre fin"
  shows "\<exists>k. reviewModified items \<lparr>ap_added = A, ap_updated = [], ap_removed = [], ap_skippedCount = c,
                 ap_quit = False, ap_unread = pre @ fin @ lines\<rparr>
         = Some \<lparr>ap_added = A, ap_updated = kept items pre fin, ap_removed = [], ap_skippedCount = k,
                 ap_quit = False, ap_unread = lines\<rparr>"
proof (cases "items = []")
  case True
  with assms completes_Nil[of pre fin] show ?thesis
    by (simp add: reviewModified_def)
next
  case False
  from reviewCategory_completes[OF assms, of lines] obtain sk where
    "reviewCategory items (pre @ fin @ lines)
         = Some (\<lparr>rr_approved = kept items pre fin, rr_skipped = sk, rr_quit = False\<rparr>, lines)"
    by blast
  with False show ?thesis
    by (simp add: reviewModified_def)
qed

lemma reviewRemoved_abort:
  assumes "length pre < length items" and "decided pre" and "prompt q = AnsQuit"
  shows "\<exists>k. reviewRemoved items \<lparr>ap_added = A, ap_updated = U, ap_removed = [], ap_skippedCount = c,
                 ap_quit = False, ap_unread = pre @ q # lines\<rparr>
         = Some \<lparr>ap_added = A, ap_updated = U, ap_removed = accepted items pre, ap_skippedCount = k,
                 ap_quit = True, ap_unread = lines\<rparr>"
proof -
  from assms(1) have "items \<noteq> []" by auto
  then show ?thesis
    by (simp add: reviewRemoved_def reviewCategory_abort[OF assms])
qed

text \<open>An abort in the first category: the two later categories are not reviewed.\<close>

lemma review_abort_new:
  assumes "length pre < length (added d)" and "decided pre" and "prompt q = AnsQuit"
  shows "\<exists>k. review False d removable (pre @ q # lines)
         = Some \<lparr>ap_added = accepted (added d) pre, ap_updated = [], ap_removed = [],
                 ap_skippedCount = k, ap_quit = True, ap_unread = lines\<rparr>"
proof -
  from reviewNew_abort[OF assms, of lines] obtain k where
    "reviewNew (added d) \<lparr>ap_added = [], ap_updated = [], ap_removed = [], ap_skippedCount = 0,
                 ap_quit = False, ap_unread = pre @ q # lines\<rparr>
         = Some \<lparr>ap_added = accepted (added d) pre, ap_updated = [], ap_removed = [], ap_skippedCount = k,
                 ap_quit = True, ap_unread = lines\<rparr>"
    by blast
  then show ?thesis
    by (simp add: review_def reviewModified_def reviewRemoved_def)
qed

lemma review_abort_modified:
  assumes "completes (added d) pre1 fin1"
    and "length pre < length (modified d)" and "decided pre" and "prompt q = AnsQuit"
  shows "\<exists>k. review False d removable (pre1 @ fin1 @ pre @ q # lines)
         = Some \<lparr>ap_added = kept (added d) pre1 fin1, ap_updated = accepted (modified d) pre,
                 ap_removed = [], ap_skippedCount = k, ap_quit = True, ap_unread = lines\<rparr>"
proof -
  from reviewNew_completes[OF assms(1), of "pre @ q # lines"] obtain k1 where
    n: "reviewNew (added d) \<lparr>ap_added = [], ap_updated = [], ap_removed = [], ap_skippedCount = 0,
                 ap_quit = False, ap_unread = pre1 @ fin1 @ pre @ q # lines\<rparr>
         = Some \<lparr>ap_added = kept (added d) pre1 fin1, ap_updated = [], ap_removed = [],
                 ap_skippedCount = k1, ap_quit = False, ap_unread = pre @ q # lines\<rparr>"
    by blast
  from reviewModified_abort[OF assms(2,3,4), of "kept (added d) pre1 fin1" k1 lines] obtain k where
    m: "reviewModified (modified d) \<lparr>ap_added = kept (added d) pre1 fin1, ap_updated = [], ap_removed = [],
                 ap_skippedCount = k1, ap_quit = False, ap_unread = pre @ q # lines\<rparr>
         = Some \<lparr>ap_added = kept (added d) pre1 fin1, ap_updated = accepted (modified d) pre,
                 ap_removed = [], ap_skippedCount = k, ap_quit = True, ap_unread = lines\<rparr>"
    by blast
  from n m show ?thesis
    by (simp add: review_def reviewRemoved_def)
qed

lemma review_abort_removed:
  assumes "completes (added d) pre1 fin1" and "completes (modified d) pre2 fin2"
    and "length pre < length removable" and "decided pre" and "prompt q = AnsQuit"
  shows "\<exists>k. review False d removable (pre1 @ fin1 @ pre2 @ fin2 @ pre @ q # lines)
         = Some \<lparr>ap_added = kept (added d) pre1 fin1, ap_updated = kept (modified d) pre2 fin2,
                 ap_removed = accepted removable pre, ap_skippedCount = k, ap_quit = True,
                 ap_unread = lines\<rparr>"
proof -
  from reviewNew_completes[OF assms(1), of "pre2 @ fin2 @ pre @ q # lines"] obtain k1 where
    n: "reviewNew (added d) \<lparr>ap_added = [], ap_updated = [], ap_removed = [], ap_skippedCount = 0,
                 ap_quit = False, ap_unread = pre1 @ fin1 @ pre2 @ fin2 @ pre @ q # lines\<rparr>
         = Some \<lparr>ap_added = kept (added d) pre1 fin1, ap_updated = [], ap_removed = [],
                 ap_skippedCount = k1, ap_quit = False, ap_unread = pre2 @ fin2 @ pre @ q # lines\<rparr>"
    by blast
  from reviewModified_completes[OF assms(2), of "kept (added d) pre1 fin1" k1 "pre @ q # lines"] obtain k2 where
    m: "reviewModified (modified d) \<lparr>ap_added = kept (added d) pre1 fin1, ap_updated = [], ap_removed = [],
                 ap_skippedCount = k1, ap_quit = False, ap_unread = pre2 @ fin2 @ pre @ q # lines\<rparr>
         = Some \<lparr>ap_added = kept (added d) pre1 fin1, ap_updated = kept (modified d) pre2 fin2,
                 ap_removed = [], ap_skippedCount = k2, ap_quit = False, ap_unread = pre @ q # lines\<rparr>"
    by blast
  from reviewRemoved_abort[OF assms(3,4,5), of "kept (added d) pre1 fin1" "kept (modified d) pre2 fin2" k2 lines]
  obtain k where
    r: "reviewRemoved removable \<lparr>ap_added = kept (added d) pre1 fin1, ap_updated = kept (modified d) pre2 fin2,
                 ap_removed = [], ap_skippedCount = k2, ap_quit = False, ap_unread = pre @ q # lines\<rparr>
         = Some \<lparr>ap_added = kept (added d) pre1 fin1, ap_updated = kept (modified d) pre2 fin2,
                 ap_removed = accepted removable pre, ap_skippedCount = k, ap_quit = True,
                 ap_unread = lines\<rparr>"
    by blast
  from n m r show ?thesis
    by (simp add: review_def)
qed

text \<open>The run after an abort: what it writes and how many prompts were answered.\<close>

lemma applyDiff_abort:
  assumes "review False d (filter (\<lambda>r. rm_name r \<in> fst ` set (rg_tokens reg)) (removed d)) (ls @ lines)
           = Some \<lparr>ap_added = A, ap_updated = U, ap_removed = R, ap_skippedCount = k, ap_quit = True,
                   ap_unread = lines\<rparr>"
    and "added d \<noteq> [] \<or> modified d \<noteq> []"
  shows "applyDiff d reg False (ls @ lines)
         = Some (if A = [] \<and> U = [] \<and> R = []
                 then \<lparr>ar_exit = 2, ar_written = None, ar_prompts = length ls\<rparr>
                 else \<lparr>ar_exit = 0,
                        ar_written = Some (mergeRegistryChanges reg
                          \<lparr>ch_added = A, ch_updated = U, ch_removedFromTheme = R\<rparr>),
                        ar_prompts = length ls\<rparr>)"
  using assms by (auto simp: applyDiff_def Let_def)


text \<open>The registry returned by the merge, read as a map, a set and a log.\<close>

lemma foldl_mergeAdded_tokens:
  "map_of (rg_tokens (foldl mergeAdded r A)) name
   = (case map_of (rev (map (\<lambda>e. (ad_name e, ad_figmaValue e)) A)) name of
        Some v \<Rightarrow> Some v | None \<Rightarrow> map_of (rg_tokens r) name)"
  by (induction A arbitrary: r) (auto simp: mergeAdded_def update_conv' map_add_def split: option.splits)

lemma foldl_mergeUpdated_tokens:
  "map_of (rg_tokens (foldl mergeUpdated r U)) name
   = (case map_of (rev (map (\<lambda>e. (mo_name e, mo_figmaValue e)) U)) name of
        Some v \<Rightarrow> Some v | None \<Rightarrow> map_of (rg_tokens r) name)"
  by (induction U arbitrary: r) (auto simp: mergeUpdated_def update_conv' map_add_def split: option.splits)

lemma foldl_mergeRemoved_tokens:
  "map_of (rg_tokens (foldl mergeRemoved r R)) name
   = (if name \<in> rm_name ` set R then None else map_of (rg_tokens r) name)"
  by (induction R arbitrary: r) (auto simp: mergeRemoved_def delete_conv')

lemma foldl_mergeAdded_removed_set:
  "set (rg_removed (foldl mergeAdded r A)) = set (rg_removed r) - ad_name ` set A"
  by (induction A arbitrary: r) (auto simp: mergeAdded_def)

lemma foldl_mergeRemoved_removed_set:
  "set (rg_removed (foldl mergeRemoved r R)) = set (rg_removed r) \<union> rm_name ` set R"
  by (induction R arbitrary: r) (auto simp: mergeRemoved_def setAdd_def)

lemma foldl_mergeAdded_entries:
  "map (\<lambda>c. (cl_action c, cl_token c, cl_value c)) (rg_changelog (foldl mergeAdded r A))
   = map (\<lambda>c. (cl_action c, cl_token c, cl_value c)) (rg_changelog r)
     @ map (\<lambda>e. (''add'', ad_name e, Some (ad_figmaValue e))) A"
  by (induction A arbitrary: r) (auto simp: mergeAdded_def)

lemma foldl_mergeUpdated_entries:
  "map (\<lambda>c. (cl_action c, cl_token c, cl_value c)) (rg_changelog (foldl mergeUpdated r U))
   = map (\<lambda>c. (cl_action c, cl_token c, cl_value c)) (rg_changelog r)
     @ map (\<lambda>e. (''update'', mo_name e, Some (mo_figmaValue e))) U"
  by (induction U arbitrary: r) (auto simp: mergeUpdated_def)

lemma foldl_mergeRemoved_entries:
  "map (\<lambda>c. (cl_action c, cl_token c, cl_value c)) (rg_changelog (foldl mergeRemoved r R))
   = map (\<lambda>c. (cl_action c, cl_token c, cl_value c)) (rg_changelog r)
     @ map (\<lambda>e. (''remove'', rm_name e, None)) R"
  by (induction R arbitrary: r) (auto simp: mergeRemoved_def)

lemma merge_contents:
  "map_of (rg_tokens (mergeRegistryChanges reg \<lparr>ch_added = A, ch_updated = U, ch_removedFromTheme = R\<rparr>)) name
     = (if name \<in> rm_name ` set R then None
        else case map_of (rev (map (\<lambda>e. (mo_name e, mo_figmaValue e)) U)) name of
               Some v \<Rightarrow> Some v
             | None \<Rightarrow> (case map_of (rev (map (\<lambda>e. (ad_name e, ad_figmaValue e)) A)) name of
                          Some v \<Rightarrow> Some v
                        | None \<Rightarrow> map_of (rg_tokens reg) name))"
  "set (rg_removed (mergeRegistryChanges reg \<lparr>ch_added = A, ch_updated = U, ch_removedFromTheme = R\<rparr>))
     = (set (rg_removed reg) - ad_name ` set A) \<union> rm_name ` set R"
  "map (\<lambda>c. (cl_action c, cl_token c, cl_value c))
       (rg_changelog (mergeRegistryChanges reg \<lparr>ch_added = A, ch_updated = U, ch_removedFromTheme = R\<rparr>))
     = map (\<lambda>e. (''add'', ad_name e, Some (ad_figmaValue e))) A
       @ map (\<lambda>e. (''update'', mo_name e, Some (mo_figmaValue e))) U
       @ map (\<lambda>e. (''remove'', rm_name e, None)) R"
proof -
  show "map_of (rg_tokens (mergeRegistryChanges reg \<lparr>ch_added = A, ch_updated = U, ch_removedFromTheme = R\<rparr>)) name
     = (if name \<in> rm_name ` set R then None
        else case map_of (rev (map (\<lambda>e. (mo_name e, mo_figmaValue e)) U)) name of
               Some v \<Rightarrow> Some v
             | None \<Rightarrow> (case map_of (rev (map (\<lambda>e. (ad_name e, ad_figmaValue e)) A)) name of
                          Some v \<Rightarrow> Some v
                        | None \<Rightarrow> map_of (rg_tokens reg) name))"
    by (simp add: mergeRegistryChanges_def foldl_mergeRemoved_tokens foldl_mergeUpdated_tokens
        foldl_mergeAdded_tokens split: option.splits)
  show "set (rg_removed (mergeRegistryChanges reg \<lparr>ch_added = A, ch_updated = U, ch_removedFromTheme = R\<rparr>))
     = (set (rg_removed reg) - ad_name ` set A) \<union> rm_name ` set R"
    by (simp add: mergeRegistryChanges_def foldl_mergeRemoved_removed_set foldl_mergeUpdated_removed
        foldl_mergeAdded_removed_set set_foldl_setAdd)
  show "map (\<lambda>c. (cl_action c, cl_token c, cl_value c))
       (rg_changelog (mergeRegistryChanges reg \<lparr>ch_added = A, ch_updated = U, ch_removedFromTheme = R\<rparr>))
     = map (\<lambda>e. (''add'', ad_name e, Some (ad_figmaValue e))) A
       @ map (\<lambda>e. (''update'', mo_name e, Some (mo_figmaValue e))) U
       @ map (\<lambda>e. (''remove'', rm_name e, None)) R"
    by (simp add: mergeRegistryChanges_def foldl_mergeRemoved_entries foldl_mergeUpdated_entries
        foldl_mergeAdded_entries)
qed

text \<open>
  C5. With three NEW entries, a yes at the first prompt and an abort at the second, the
  run answers two prompts and writes the registry with the first entry alone merged in:
  its value set, its name off the removed list, one changelog entry. In general, take
  any lines that each say yes or no, fewer than the category has entries, and then an
  abort: the category returns the entries answered yes as approved, and the entries
  answered no, the entry at hand and all later entries as skipped, and reads no further
  line. The same holds for the run, whichever category the abort falls in: the
  categories taken to their end before it keep the entries their lines approved, the
  categories after it are not presented, the prompts answered are those up to the
  abort, and the run writes the merge of the approved entries, or writes nothing and
  exits with 2 when there is none. The registry written holds, for every name, the value
  of the last approved modified or else new entry of that name, no value for the name of
  an approved removal, and the value of the loaded registry for every other name, so
  for the names of the entries left undecided; its removed names and its changelog
  come from the approved entries alone.
\<close>

theorem abort_keeps_accepted_only:
  "(prompt l1 = AnsYes \<and> prompt l2 = AnsQuit \<and> added d0 = [e1, e2, e3] \<longrightarrow>
      applyDiff d0 reg0 False (l1 # l2 # lines0)
      = Some \<lparr>ar_exit = 0,
          ar_written = Some
            \<lparr>rg_tokens = AList.update (ad_name e1) (ad_figmaValue e1) (rg_tokens reg0),
             rg_removed = removeAll (ad_name e1) (foldl (\<lambda>s x. setAdd x s) [] (rg_removed reg0)),
             rg_changelog = [\<lparr>cl_action = ''add'', cl_token = ad_name e1,
                               cl_value = Some (ad_figmaValue e1),
                               cl_prev = lookupOrNull (rg_tokens reg0) (ad_name e1)\<rparr>]\<rparr>,
          ar_prompts = 2\<rparr>)
   \<and> (length pre < length items \<and> decided pre \<and> prompt q = AnsQuit \<longrightarrow>
        reviewCategory items (pre @ q # lines)
        = Some (\<lparr>rr_approved = accepted items pre,
                 rr_skipped = declined items pre @ drop (length pre) items,
                 rr_quit = True\<rparr>, lines))
   \<and> (length pre < length (added d) \<and> decided pre \<and> prompt q = AnsQuit \<longrightarrow>
        applyDiff d reg False (pre @ q # lines)
        = Some (if accepted (added d) pre = []
                then \<lparr>ar_exit = 2, ar_written = None, ar_prompts = length pre + 1\<rparr>
                else \<lparr>ar_exit = 0,
                       ar_written = Some (mergeRegistryChanges reg
                         \<lparr>ch_added = accepted (added d) pre, ch_updated = [], ch_removedFromTheme = []\<rparr>),
                       ar_prompts = length pre + 1\<rparr>))
   \<and> (completes (added d) pre1 fin1
        \<and> length pre < length (modified d) \<and> decided pre \<and> prompt q = AnsQuit \<longrightarrow>
        applyDiff d reg False (pre1 @ fin1 @ pre @ q # lines)
        = Some (if kept (added d) pre1 fin1 = [] \<and> accepted (modified d) pre = []
                then \<lparr>ar_exit = 2, ar_written = None,
                       ar_prompts = length pre1 + length fin1 + length pre + 1\<rparr>
                else \<lparr>ar_exit = 0,
                       ar_written = Some (mergeRegistryChanges reg
                         \<lparr>ch_added = kept (added d) pre1 fin1, ch_updated = accepted (modified d) pre,
                          ch_removedFromTheme = []\<rparr>),
                       ar_prompts = length pre1 + length fin1 + length pre + 1\<rparr>))
   \<and> (completes (added d) pre1 fin1 \<and> completes (modified d) pre2 fin2
        \<and> (added d \<noteq> [] \<or> modified d \<noteq> [])
        \<and> length pre < length (filter (\<lambda>r. rm_name r \<in> fst ` set (rg_tokens reg)) (removed d))
        \<and> decided pre \<and> prompt q = AnsQuit \<longrightarrow>
        applyDiff d reg False (pre1 @ fin1 @ pre2 @ fin2 @ pre @ q # lines)
        = Some (if kept (added d) pre1 fin1 = [] \<and> kept (modified d) pre2 fin2 = []
                   \<and> accepted (filter (\<lambda>r. rm_name r \<in> fst ` set (rg_tokens reg)) (removed d)) pre = []
                then \<lparr>ar_exit = 2, ar_written = None,
                       ar_prompts = length pre1 + length fin1 + length pre2 + length fin2 + length pre + 1\<rparr>
                else \<lparr>ar_exit = 0,
                       ar_written = Some (mergeRegistryChanges reg
                         \<lparr>ch_added = kept (added d) pre1 fin1, ch_updated = kept (modified d) pre2 fin2,
                          ch_removedFromTheme =
                            accepted (filter (\<lambda>r. rm_name r \<in> fst ` set (rg_tokens reg)) (removed d)) pre\<rparr>),
                       ar_prompts = length pre1 + length fin1 + length pre2 + length fin2 + length pre + 1\<rparr>))
   \<and> map_of (rg_tokens (mergeRegistryChanges reg \<lparr>ch_added = A, ch_updated = U, ch_removedFromTheme = R\<rparr>)) name
     = (if name \<in> rm_name ` set R then None
        else case map_of (rev (map (\<lambda>e. (mo_name e, mo_figmaValue e)) U)) name of
               Some v \<Rightarrow> Some v
             | None \<Rightarrow> (case map_of (rev (map (\<lambda>e. (ad_name e, ad_figmaValue e)) A)) name of
                          Some v \<Rightarrow> Some v
                        | None \<Rightarrow> map_of (rg_tokens reg) name))
   \<and> set (rg_removed (mergeRegistryChanges reg \<lparr>ch_added = A, ch_updated = U, ch_removedFromTheme = R\<rparr>))
     = (set (rg_removed reg) - ad_name ` set A) \<union> rm_name ` set R
   \<and> map (\<lambda>c. (cl_action c, cl_token c, cl_value c))
       (rg_changelog (mergeRegistryChanges reg \<lparr>ch_added = A, ch_updated = U, ch_removedFromTheme = R\<rparr>))
     = map (\<lambda>e. (''add'', ad_name e, Some (ad_figmaValue e))) A
       @ map (\<lambda>e. (''update'', mo_name e, Some (mo_figmaValue e))) U
       @ map (\<lambda>e. (''remove'', rm_name e, None)) R"
proof (intro conjI impI)
  assume a: "prompt l1 = AnsYes \<and> prompt l2 = AnsQuit \<and> added d0 = [e1, e2, e3]"
  then have "length [l1] < length (added d0)" "decided [l1]" "prompt l2 = AnsQuit"
    by (simp_all add: decided_def)
  from review_abort_new[OF this, of "filter (\<lambda>r. rm_name r \<in> fst ` set (rg_tokens reg0)) (removed d0)" lines0]
  obtain k where "review False d0 (filter (\<lambda>r. rm_name r \<in> fst ` set (rg_tokens reg0)) (removed d0))
        ([l1, l2] @ lines0)
      = Some \<lparr>ap_added = accepted (added d0) [l1], ap_updated = [], ap_removed = [],
              ap_skippedCount = k, ap_quit = True, ap_unread = lines0\<rparr>"
    by auto
  from applyDiff_abort[OF this] a
  show "applyDiff d0 reg0 False (l1 # l2 # lines0)
      = Some \<lparr>ar_exit = 0,
          ar_written = Some
            \<lparr>rg_tokens = AList.update (ad_name e1) (ad_figmaValue e1) (rg_tokens reg0),
             rg_removed = removeAll (ad_name e1) (foldl (\<lambda>s x. setAdd x s) [] (rg_removed reg0)),
             rg_changelog = [\<lparr>cl_action = ''add'', cl_token = ad_name e1,
                               cl_value = Some (ad_figmaValue e1),
                               cl_prev = lookupOrNull (rg_tokens reg0) (ad_name e1)\<rparr>]\<rparr>,
          ar_prompts = 2\<rparr>"
    by (simp add: accepted_Cons mergeRegistryChanges_def mergeAdded_def)
next
  assume "length pre < length items \<and> decided pre \<and> prompt q = AnsQuit"
  then show "reviewCategory items (pre @ q # lines)
        = Some (\<lparr>rr_approved = accepted items pre,
                 rr_skipped = declined items pre @ drop (length pre) items,
                 rr_quit = True\<rparr>, lines)"
    by (simp add: reviewCategory_abort)
next
  assume a: "length pre < length (added d) \<and> decided pre \<and> prompt q = AnsQuit"
  then have n: "added d \<noteq> [] \<or> modified d \<noteq> []" by auto
  from a review_abort_new[of pre d q "filter (\<lambda>r. rm_name r \<in> fst ` set (rg_tokens reg)) (removed d)" lines]
  obtain k where "review False d (filter (\<lambda>r. rm_name r \<in> fst ` set (rg_tokens reg)) (removed d))
        ((pre @ [q]) @ lines)
      = Some \<lparr>ap_added = accepted (added d) pre, ap_updated = [], ap_removed = [],
              ap_skippedCount = k, ap_quit = True, ap_unread = lines\<rparr>"
    by auto
  from applyDiff_abort[OF this n]
  show "applyDiff d reg False (pre @ q # lines)
        = Some (if accepted (added d) pre = []
                then \<lparr>ar_exit = 2, ar_written = None, ar_prompts = length pre + 1\<rparr>
                else \<lparr>ar_exit = 0,
                       ar_written = Some (mergeRegistryChanges reg
                         \<lparr>ch_added = accepted (added d) pre, ch_updated = [], ch_removedFromTheme = []\<rparr>),
                       ar_prompts = length pre + 1\<rparr>)"
    by simp
next
  assume a: "completes (added d) pre1 fin1
        \<and> length pre < length (modified d) \<and> decided pre \<and> prompt q = AnsQuit"
  then have n: "added d \<noteq> [] \<or> modified d \<noteq> []" by auto
  from a review_abort_modified[of d pre1 fin1 pre q
      "filter (\<lambda>r. rm_name r \<in> fst ` set (rg_tokens reg)) (removed d)" lines]
  obtain k where "review False d (filter (\<lambda>r. rm_name r \<in> fst ` set (rg_tokens reg)) (removed d))
        ((pre1 @ fin1 @ pre @ [q]) @ lines)
      = Some \<lparr>ap_added = kept (added d) pre1 fin1, ap_updated = accepted (modified d) pre,
              ap_removed = [], ap_skippedCount = k, ap_quit = True, ap_unread = lines\<rparr>"
    by auto
  from applyDiff_abort[OF this n]
  show "applyDiff d reg False (pre1 @ fin1 @ pre @ q # lines)
        = Some (if kept (added d) pre1 fin1 = [] \<and> accepted (modified d) pre = []
                then \<lparr>ar_exit = 2, ar_written = None,
                       ar_prompts = length pre1 + length fin1 + length pre + 1\<rparr>
                else \<lparr>ar_exit = 0,
                       ar_written = Some (mergeRegistryChanges reg
                         \<lparr>ch_added = kept (added d) pre1 fin1, ch_updated = accepted (modified d) pre,
                          ch_removedFromTheme = []\<rparr>),
                       ar_prompts = length pre1 + length fin1 + length pre + 1\<rparr>)"
    by simp
next
  assume a: "completes (added d) pre1 fin1 \<and> completes (modified d) pre2 fin2
        \<and> (added d \<noteq> [] \<or> modified d \<noteq> [])
        \<and> length pre < length (filter (\<lambda>r. rm_name r \<in> fst ` set (rg_tokens reg)) (removed d))
        \<and> decided pre \<and> prompt q = AnsQuit"
  then have n: "added d \<noteq> [] \<or> modified d \<noteq> []" by auto
  from a review_abort_removed[of d pre1 fin1 pre2 fin2 pre
      "filter (\<lambda>r. rm_name r \<in> fst ` set (rg_tokens reg)) (removed d)" q lines]
  obtain k where "review False d (filter (\<lambda>r. rm_name r \<in> fst ` set (rg_tokens reg)) (removed d))
        ((pre1 @ fin1 @ pre2 @ fin2 @ pre @ [q]) @ lines)
      = Some \<lparr>ap_added = kept (added d) pre1 fin1, ap_updated = kept (modified d) pre2 fin2,
              ap_removed = accepted (filter (\<lambda>r. rm_name r \<in> fst ` set (rg_tokens reg)) (removed d)) pre,
              ap_skippedCount = k, ap_quit = True, ap_unread = lines\<rparr>"
    by auto
  from applyDiff_abort[OF this n]
  show "applyDiff d reg False (pre1 @ fin1 @ pre2 @ fin2 @ pre @ q # lines)
        = Some (if kept (added d) pre1 fin1 = [] \<and> kept (modified d) pre2 fin2 = []
                   \<and> accepted (filter (\<lambda>r. rm_name r \<in> fst ` set (rg_tokens reg)) (removed d)) pre = []
                then \<lparr>ar_exit = 2, ar_written = None,
                       ar_prompts = length pre1 + length fin1 + length pre2 + length fin2 + length pre + 1\<rparr>
                else \<lparr>ar_exit = 0,
                       ar_written = Some (mergeRegistryChanges reg
                         \<lparr>ch_added = kept (added d) pre1 fin1, ch_updated = kept (modified d) pre2 fin2,
                          ch_removedFromTheme =
                            accepted (filter (\<lambda>r. rm_name r \<in> fst ` set (rg_tokens reg)) (removed d)) pre\<rparr>),
                       ar_prompts = length pre1 + length fin1 + length pre2 + length fin2 + length pre + 1\<rparr>)"
    by simp
qed (rule merge_contents)+


theorem abort_keeps_accepted_only_witness:
  "applyDiff
     \<lparr>added = [\<lparr>ad_name = ''--primitive-a'', ad_figmaValue = ''1''\<rparr>,
               \<lparr>ad_name = ''--primitive-b'', ad_figmaValue = ''2''\<rparr>,
               \<lparr>ad_name = ''--primitive-c'', ad_figmaValue = ''3''\<rparr>],
      modified = [], removed = [], unchanged = []\<rparr>
     \<lparr>rg_tokens = [], rg_removed = [], rg_changelog = []\<rparr> False [''y'', ''q'']
   = Some \<lparr>ar_exit = 0,
       ar_written = Some \<lparr>rg_tokens = [(''--primitive-a'', ''1'')], rg_removed = [],
         rg_changelog = [\<lparr>cl_action = ''add'', cl_token = ''--primitive-a'', cl_value = Some ''1'',
                          cl_prev = None\<rparr>]\<rparr>,
       ar_prompts = 2\<rparr>
   \<and> applyDiff
       \<lparr>added = [\<lparr>ad_name = ''--primitive-a'', ad_figmaValue = ''1''\<rparr>,
                 \<lparr>ad_name = ''--primitive-b'', ad_figmaValue = ''2''\<rparr>],
        modified = [\<lparr>mo_name = ''--primitive-d'', mo_cssValue = ''4'', mo_figmaValue = ''5''\<rparr>,
                    \<lparr>mo_name = ''--primitive-f'', mo_cssValue = ''7'', mo_figmaValue = ''8''\<rparr>],
        removed = [], unchanged = []\<rparr>
       \<lparr>rg_tokens = [], rg_removed = [], rg_changelog = []\<rparr> False [''a'', ''y'', ''q'', ''y'']
     = Some \<lparr>ar_exit = 0,
         ar_written = Some \<lparr>rg_tokens = [(''--primitive-a'', ''1''), (''--primitive-b'', ''2''),
                                         (''--primitive-d'', ''5'')],
           rg_removed = [],
           rg_changelog = [\<lparr>cl_action = ''add'', cl_token = ''--primitive-a'', cl_value = Some ''1'',
                            cl_prev = None\<rparr>,
                           \<lparr>cl_action = ''add'', cl_token = ''--primitive-b'', cl_value = Some ''2'',
                            cl_prev = None\<rparr>,
                           \<lparr>cl_action = ''update'', cl_token = ''--primitive-d'', cl_value = Some ''5'',
                            cl_prev = Some ''4''\<rparr>]\<rparr>,
         ar_prompts = 3\<rparr>
   \<and> applyDiff
       \<lparr>added = [\<lparr>ad_name = ''--primitive-a'', ad_figmaValue = ''1''\<rparr>], modified = [],
        removed = [\<lparr>rm_name = ''--primitive-e'', rm_cssValue = ''6''\<rparr>], unchanged = []\<rparr>
       \<lparr>rg_tokens = [(''--primitive-e'', ''9'')], rg_removed = [], rg_changelog = []\<rparr> False
       [''n'', ''q'']
     = Some \<lparr>ar_exit = 2, ar_written = None, ar_prompts = 2\<rparr>
   \<and> reviewCategory [1::nat, 2, 3] [''y'', ''n'', ''q'', ''y'']
     = Some (\<lparr>rr_approved = [1], rr_skipped = [2, 3], rr_quit = True\<rparr>, [''y''])
   \<and> applyDiff
       \<lparr>added = [\<lparr>ad_name = ''--primitive-a'', ad_figmaValue = ''1''\<rparr>], modified = [],
        removed = [], unchanged = []\<rparr>
       \<lparr>rg_tokens = [], rg_removed = [], rg_changelog = []\<rparr> False [''q'', ''y'']
     = Some \<lparr>ar_exit = 2, ar_written = None, ar_prompts = 1\<rparr>"
proof -
  have y: "prompt ''y'' = AnsYes" by code_simp
  have n: "prompt ''n'' = AnsNo" by code_simp
  have q: "prompt ''q'' = AnsQuit" by code_simp
  have a: "prompt ''a'' = AnsAll" by code_simp
  have first: "applyDiff
     \<lparr>added = [\<lparr>ad_name = ''--primitive-a'', ad_figmaValue = ''1''\<rparr>,
               \<lparr>ad_name = ''--primitive-b'', ad_figmaValue = ''2''\<rparr>,
               \<lparr>ad_name = ''--primitive-c'', ad_figmaValue = ''3''\<rparr>],
      modified = [], removed = [], unchanged = []\<rparr>
     \<lparr>rg_tokens = [], rg_removed = [], rg_changelog = []\<rparr> False [''y'', ''q'']
   = Some \<lparr>ar_exit = 0,
       ar_written = Some \<lparr>rg_tokens = [(''--primitive-a'', ''1'')], rg_removed = [],
         rg_changelog = [\<lparr>cl_action = ''add'', cl_token = ''--primitive-a'', cl_value = Some ''1'',
                          cl_prev = None\<rparr>]\<rparr>,
       ar_prompts = 2\<rparr>"
    using abort_keeps_accepted_only[
        where ?l1.0 = "''y''" and ?l2.0 = "''q''" and ?lines0.0 = "[]"
          and ?e1.0 = "\<lparr>ad_name = ''--primitive-a'', ad_figmaValue = ''1''\<rparr>"
          and ?e2.0 = "\<lparr>ad_name = ''--primitive-b'', ad_figmaValue = ''2''\<rparr>"
          and ?e3.0 = "\<lparr>ad_name = ''--primitive-c'', ad_figmaValue = ''3''\<rparr>"
          and ?d0.0 = "\<lparr>added = [\<lparr>ad_name = ''--primitive-a'', ad_figmaValue = ''1''\<rparr>,
               \<lparr>ad_name = ''--primitive-b'', ad_figmaValue = ''2''\<rparr>,
               \<lparr>ad_name = ''--primitive-c'', ad_figmaValue = ''3''\<rparr>],
              modified = [], removed = [], unchanged = []\<rparr>"
          and ?reg0.0 = "\<lparr>rg_tokens = [], rg_removed = [], rg_changelog = []\<rparr>", THEN conjunct1]
      y q by (simp add: lookupOrNull_def)
  have second: "applyDiff
       \<lparr>added = [\<lparr>ad_name = ''--primitive-a'', ad_figmaValue = ''1''\<rparr>,
                 \<lparr>ad_name = ''--primitive-b'', ad_figmaValue = ''2''\<rparr>],
        modified = [\<lparr>mo_name = ''--primitive-d'', mo_cssValue = ''4'', mo_figmaValue = ''5''\<rparr>,
                    \<lparr>mo_name = ''--primitive-f'', mo_cssValue = ''7'', mo_figmaValue = ''8''\<rparr>],
        removed = [], unchanged = []\<rparr>
       \<lparr>rg_tokens = [], rg_removed = [], rg_changelog = []\<rparr> False [''a'', ''y'', ''q'', ''y'']
     = Some \<lparr>ar_exit = 0,
         ar_written = Some \<lparr>rg_tokens = [(''--primitive-a'', ''1''), (''--primitive-b'', ''2''),
                                         (''--primitive-d'', ''5'')],
           rg_removed = [],
           rg_changelog = [\<lparr>cl_action = ''add'', cl_token = ''--primitive-a'', cl_value = Some ''1'',
                            cl_prev = None\<rparr>,
                           \<lparr>cl_action = ''add'', cl_token = ''--primitive-b'', cl_value = Some ''2'',
                            cl_prev = None\<rparr>,
                           \<lparr>cl_action = ''update'', cl_token = ''--primitive-d'', cl_value = Some ''5'',
                            cl_prev = Some ''4''\<rparr>]\<rparr>,
         ar_prompts = 3\<rparr>"
    using abort_keeps_accepted_only[
        where d = "\<lparr>added = [\<lparr>ad_name = ''--primitive-a'', ad_figmaValue = ''1''\<rparr>,
                 \<lparr>ad_name = ''--primitive-b'', ad_figmaValue = ''2''\<rparr>],
              modified = [\<lparr>mo_name = ''--primitive-d'', mo_cssValue = ''4'', mo_figmaValue = ''5''\<rparr>,
                    \<lparr>mo_name = ''--primitive-f'', mo_cssValue = ''7'', mo_figmaValue = ''8''\<rparr>],
              removed = [], unchanged = []\<rparr>"
          and reg = "\<lparr>rg_tokens = [], rg_removed = [], rg_changelog = []\<rparr>"
          and ?pre1.0 = "[]" and ?fin1.0 = "[''a'']" and pre = "[''y'']" and q = "''q''"
          and lines = "[''y'']",
        THEN conjunct2, THEN conjunct2, THEN conjunct2, THEN conjunct1]
      y q a
    by (simp add: completes_def decided_def kept_def accepted_def mergeRegistryChanges_def
        mergeAdded_def mergeUpdated_def lookupOrNull_def)
  have third: "applyDiff
       \<lparr>added = [\<lparr>ad_name = ''--primitive-a'', ad_figmaValue = ''1''\<rparr>], modified = [],
        removed = [\<lparr>rm_name = ''--primitive-e'', rm_cssValue = ''6''\<rparr>], unchanged = []\<rparr>
       \<lparr>rg_tokens = [(''--primitive-e'', ''9'')], rg_removed = [], rg_changelog = []\<rparr> False
       [''n'', ''q'']
     = Some \<lparr>ar_exit = 2, ar_written = None, ar_prompts = 2\<rparr>"
    using abort_keeps_accepted_only[
        where d = "\<lparr>added = [\<lparr>ad_name = ''--primitive-a'', ad_figmaValue = ''1''\<rparr>], modified = [],
              removed = [\<lparr>rm_name = ''--primitive-e'', rm_cssValue = ''6''\<rparr>], unchanged = []\<rparr>"
          and reg = "\<lparr>rg_tokens = [(''--primitive-e'', ''9'')], rg_removed = [], rg_changelog = []\<rparr>"
          and ?pre1.0 = "[''n'']" and ?fin1.0 = "[]" and ?pre2.0 = "[]" and ?fin2.0 = "[]"
          and pre = "[]" and q = "''q''" and lines = "[]",
        THEN conjunct2, THEN conjunct2, THEN conjunct2, THEN conjunct2, THEN conjunct1]
      n q
    by (simp add: completes_def decided_def kept_def accepted_def)
  have fourth: "reviewCategory [1::nat, 2, 3] [''y'', ''n'', ''q'', ''y'']
     = Some (\<lparr>rr_approved = [1], rr_skipped = [2, 3], rr_quit = True\<rparr>, [''y''])"
    using abort_keeps_accepted_only[
        where items = "[1::nat, 2, 3]" and pre = "[''y'', ''n'']" and q = "''q''" and lines = "[''y'']",
        THEN conjunct2, THEN conjunct1]
      y n q
    by (simp add: decided_def accepted_def declined_def)
  have fifth: "applyDiff
       \<lparr>added = [\<lparr>ad_name = ''--primitive-a'', ad_figmaValue = ''1''\<rparr>], modified = [],
        removed = [], unchanged = []\<rparr>
       \<lparr>rg_tokens = [], rg_removed = [], rg_changelog = []\<rparr> False [''q'', ''y'']
     = Some \<lparr>ar_exit = 2, ar_written = None, ar_prompts = 1\<rparr>"
    using abort_keeps_accepted_only[
        where d = "\<lparr>added = [\<lparr>ad_name = ''--primitive-a'', ad_figmaValue = ''1''\<rparr>], modified = [],
              removed = [], unchanged = []\<rparr>"
          and reg = "\<lparr>rg_tokens = [], rg_removed = [], rg_changelog = []\<rparr>"
          and pre = "[]" and q = "''q''" and lines = "[''y'']",
        THEN conjunct2, THEN conjunct2, THEN conjunct1]
      q
    by (simp add: decided_def accepted_def)
  from first second third fourth fifth show ?thesis by blast
qed

lemma parseLine_keeps_definition:
  "map_of (tokenDefs st) name = Some d \<Longrightarrow> map_of (tokenDefs (parseLine st il)) name = Some d"
  by (auto simp: parseLine_def Let_def split: option.splits)

lemma foldl_parseLine_keeps_definition:
  "map_of (tokenDefs st) name = Some d \<Longrightarrow> map_of (tokenDefs (foldl parseLine st ils)) name = Some d"
  by (induction ils arbitrary: st) (auto simp: parseLine_keeps_definition)

text \<open>
  What \<^const>\<open>parseCSS\<close> holds for a name after some lines, it holds after all lines: the
  validator keeps the first definition of a name.
\<close>

lemma parseCSS_first_definition_wins:
  assumes "enumerate 0 (splitLines css) = pre @ post"
    and "map_of (tokenDefs (foldl parseLine initialState pre)) name = Some d"
  shows "map_of (tokenDefs (parseCSS css)) name = Some d"
  using assms by (simp add: parseCSS_def foldl_parseLine_keeps_definition)

lemma defMatch_dashes: "defMatch t = Some (name, v) \<Longrightarrow> startsWith t ''--''"
  by (simp add: defMatch_def split: if_splits)

lemma dashes_no_comment:
  "startsWith t ''--'' \<Longrightarrow> t \<noteq> [] \<and> \<not> startsWith t ''/*'' \<and> \<not> startsWith t ''//''"
  by (auto simp: startsWith_def)

text \<open>A line read in the root scope that defines a name not held yet adds the definition.\<close>

lemma parseLine_defines:
  assumes "inRoot (parseLine st il)" and "defMatch (trim (snd il)) = Some (name, v)"
    and "map_of (tokenDefs st) name = None"
  shows "\<exists>layer. map_of (tokenDefs (parseLine st il)) name
           = Some \<lparr>td_value = v, td_refs = extractVarRefs v, td_line = fst il + 1, td_layer = layer\<rparr>"
proof -
  from assms(2) have "trim (snd il) \<noteq> [] \<and> \<not> startsWith (trim (snd il)) ''/*''
      \<and> \<not> startsWith (trim (snd il)) ''//''"
    by (intro dashes_no_comment defMatch_dashes)
  with assms show ?thesis
    by (auto simp: parseLine_def Let_def map_add_def split: if_splits)
qed

lemma scanLine_defines:
  assumes "ts_inRoot (scanLine st il)" and "defMatch (trim (snd il)) = Some (name, v)"
  shows "map_of (ts_tokens (scanLine st il)) name = Some \<lparr>ct_value = v, ct_line = fst il + 1\<rparr>"
  using assms by (auto simp: scanLine_def Let_def update_conv' split: if_splits)

lemma scanLine_keeps:
  assumes "ts_inRoot (scanLine st il) \<longrightarrow> map_option fst (defMatch (trim (snd il))) \<noteq> Some name"
  shows "map_of (ts_tokens (scanLine st il)) name = map_of (ts_tokens st) name"
  using assms by (auto simp: scanLine_def Let_def update_conv' split: if_splits option.splits)

lemma foldl_scanLine_keeps:
  "(\<forall>k<length post. ts_inRoot (foldl scanLine st (take (Suc k) post))
       \<longrightarrow> map_option fst (defMatch (trim (snd (post ! k)))) \<noteq> Some name) \<Longrightarrow>
   map_of (ts_tokens (foldl scanLine st post)) name = map_of (ts_tokens st) name"
proof (induction post arbitrary: st)
  case Nil
  then show ?case by simp
next
  case (Cons p post)
  from Cons.prems[rule_format, of 0]
  have "ts_inRoot (scanLine st p) \<longrightarrow> map_option fst (defMatch (trim (snd p))) \<noteq> Some name"
    by simp
  then have k: "map_of (ts_tokens (scanLine st p)) name = map_of (ts_tokens st) name"
    by (rule scanLine_keeps)
  have "\<forall>k<length post. ts_inRoot (foldl scanLine (scanLine st p) (take (Suc k) post))
       \<longrightarrow> map_option fst (defMatch (trim (snd (post ! k)))) \<noteq> Some name"
  proof (intro allI impI)
    fix k assume "k < length post"
      and "ts_inRoot (foldl scanLine (scanLine st p) (take (Suc k) post))"
    with Cons.prems[rule_format, of "Suc k"]
    show "map_option fst (defMatch (trim (snd (post ! k)))) \<noteq> Some name"
      by simp
  qed
  from Cons.IH[OF this] k show ?case by simp
qed

text \<open>
  C8. Where a stylesheet defines a name more than once inside the root scope, the two
  extractions differ. The validator's \<^const>\<open>parseCSS\<close> keeps the first definition: a line
  read inside the root scope that defines a name not defined before gives the name its
  value, references and line, whatever the later lines hold. The sync scripts'
  \<^const>\<open>parseCSSTokens\<close>, whose result goes to the diff engine, keeps the last: a line
  read inside the root scope that defines a name gives the name its value and line when
  no later line read inside the root scope defines it, whatever the earlier lines hold.
\<close>

theorem first_wins_in_validator_last_in_sync:
  "(enumerate 0 (splitLines css) = pre @ (i, line) # post
      \<and> inRoot (parseLine (foldl parseLine initialState pre) (i, line))
      \<and> defMatch (trim line) = Some (name, v)
      \<and> map_of (tokenDefs (foldl parseLine initialState pre)) name = None \<longrightarrow>
      (\<exists>layer. map_of (tokenDefs (parseCSS css)) name
         = Some \<lparr>td_value = v, td_refs = extractVarRefs v, td_line = i + 1, td_layer = layer\<rparr>))
   \<and> (enumerate 0 (splitLines css) = pre @ (i, line) # post
      \<and> ts_inRoot (scanLine (foldl scanLine
            \<lparr>ts_braceDepth = 0, ts_inRoot = False, ts_rootDepth = - 1, ts_tokens = []\<rparr> pre) (i, line))
      \<and> defMatch (trim line) = Some (name, v)
      \<and> (\<forall>k<length post.
            ts_inRoot (foldl scanLine
              \<lparr>ts_braceDepth = 0, ts_inRoot = False, ts_rootDepth = - 1, ts_tokens = []\<rparr>
              (pre @ (i, line) # take (Suc k) post))
            \<longrightarrow> map_option fst (defMatch (trim (snd (post ! k)))) \<noteq> Some name) \<longrightarrow>
      map_of (parseCSSTokens css) name = Some \<lparr>ct_value = v, ct_line = i + 1\<rparr>)"
proof (intro conjI impI)
  assume a: "enumerate 0 (splitLines css) = pre @ (i, line) # post
      \<and> inRoot (parseLine (foldl parseLine initialState pre) (i, line))
      \<and> defMatch (trim line) = Some (name, v)
      \<and> map_of (tokenDefs (foldl parseLine initialState pre)) name = None"
  then obtain layer where
    "map_of (tokenDefs (parseLine (foldl parseLine initialState pre) (i, line))) name
       = Some \<lparr>td_value = v, td_refs = extractVarRefs v, td_line = i + 1, td_layer = layer\<rparr>"
    using parseLine_defines[of "foldl parseLine initialState pre" "(i, line)" name v] by auto
  then have "map_of (tokenDefs (foldl parseLine (parseLine (foldl parseLine initialState pre) (i, line)) post)) name
       = Some \<lparr>td_value = v, td_refs = extractVarRefs v, td_line = i + 1, td_layer = layer\<rparr>"
    by (rule foldl_parseLine_keeps_definition)
  with a show "\<exists>layer. map_of (tokenDefs (parseCSS css)) name
         = Some \<lparr>td_value = v, td_refs = extractVarRefs v, td_line = i + 1, td_layer = layer\<rparr>"
    by (auto simp: parseCSS_def)
next
  let ?init = "\<lparr>ts_braceDepth = 0, ts_inRoot = False, ts_rootDepth = - 1, ts_tokens = []\<rparr>"
  assume a: "enumerate 0 (splitLines css) = pre @ (i, line) # post
      \<and> ts_inRoot (scanLine (foldl scanLine ?init pre) (i, line))
      \<and> defMatch (trim line) = Some (name, v)
      \<and> (\<forall>k<length post.
            ts_inRoot (foldl scanLine ?init (pre @ (i, line) # take (Suc k) post))
            \<longrightarrow> map_option fst (defMatch (trim (snd (post ! k)))) \<noteq> Some name)"
  then have d: "map_of (ts_tokens (scanLine (foldl scanLine ?init pre) (i, line))) name
      = Some \<lparr>ct_value = v, ct_line = i + 1\<rparr>"
    using scanLine_defines[of "foldl scanLine ?init pre" "(i, line)" name v] by simp
  from a have "\<forall>k<length post.
      ts_inRoot (foldl scanLine (scanLine (foldl scanLine ?init pre) (i, line)) (take (Suc k) post))
      \<longrightarrow> map_option fst (defMatch (trim (snd (post ! k)))) \<noteq> Some name"
    by simp
  from foldl_scanLine_keeps[OF this] d a
  show "map_of (parseCSSTokens css) name = Some \<lparr>ct_value = v, ct_line = i + 1\<rparr>"
    by (simp add: parseCSSTokens_def)
qed


theorem first_wins_in_validator_last_in_sync_witness:
  "(\<exists>layer. map_of (tokenDefs (parseCSS (''@layer tokens {'' @ [CHR 0x0A] @ '':root {'' @ [CHR 0x0A]
        @ ''  --semantic-x: red;'' @ [CHR 0x0A] @ ''}'' @ [CHR 0x0A] @ ''}'' @ [CHR 0x0A]
        @ ''@layer themes {'' @ [CHR 0x0A] @ '':root {'' @ [CHR 0x0A]
        @ ''  --semantic-x: blue;'' @ [CHR 0x0A] @ ''}'' @ [CHR 0x0A] @ ''}''))) ''--semantic-x''
      = Some \<lparr>td_value = ''red'', td_refs = [], td_line = 3, td_layer = layer\<rparr>)
   \<and> map_of (parseCSSTokens (''@layer tokens {'' @ [CHR 0x0A] @ '':root {'' @ [CHR 0x0A]
        @ ''  --semantic-x: red;'' @ [CHR 0x0A] @ ''}'' @ [CHR 0x0A] @ ''}'' @ [CHR 0x0A]
        @ ''@layer themes {'' @ [CHR 0x0A] @ '':root {'' @ [CHR 0x0A]
        @ ''  --semantic-x: blue;'' @ [CHR 0x0A] @ ''}'' @ [CHR 0x0A] @ ''}'')) ''--semantic-x'' = Some \<lparr>ct_value = ''blue'', ct_line = 8\<rparr>"
proof -
  have e: "enumerate 0 (splitLines (''@layer tokens {'' @ [CHR 0x0A] @ '':root {'' @ [CHR 0x0A]
        @ ''  --semantic-x: red;'' @ [CHR 0x0A] @ ''}'' @ [CHR 0x0A] @ ''}'' @ [CHR 0x0A]
        @ ''@layer themes {'' @ [CHR 0x0A] @ '':root {'' @ [CHR 0x0A]
        @ ''  --semantic-x: blue;'' @ [CHR 0x0A] @ ''}'' @ [CHR 0x0A] @ ''}''))
      = [(0, ''@layer tokens {''), (1, '':root {''), (2, ''  --semantic-x: red;''), (3, ''}''), (4, ''}''),
         (5, ''@layer themes {''), (6, '':root {''), (7, ''  --semantic-x: blue;''), (8, ''}''), (9, ''}'')]"
    by code_simp
  have red: "defMatch (trim ''  --semantic-x: red;'') = Some (''--semantic-x'', ''red'')"
    by code_simp
  have blue: "defMatch (trim ''  --semantic-x: blue;'') = Some (''--semantic-x'', ''blue'')"
    by code_simp
  have close: "defMatch (trim ''}'') = None"
    by code_simp
  have refs: "extractVarRefs ''red'' = []"
    by code_simp
  have r1: "inRoot (parseLine (foldl parseLine initialState [(0, ''@layer tokens {''), (1, '':root {'')])
      (2, ''  --semantic-x: red;''))"
    by code_simp
  have n1: "map_of (tokenDefs (foldl parseLine initialState [(0, ''@layer tokens {''), (1, '':root {'')]))
      ''--semantic-x'' = None"
    by code_simp
  have r2: "ts_inRoot (scanLine (foldl scanLine \<lparr>ts_braceDepth = 0, ts_inRoot = False, ts_rootDepth = - 1, ts_tokens = []\<rparr>
      [(0, ''@layer tokens {''), (1, '':root {''), (2, ''  --semantic-x: red;''), (3, ''}''), (4, ''}''),
       (5, ''@layer themes {''), (6, '':root {'')]) (7, ''  --semantic-x: blue;''))"
    by code_simp
  have later: "\<forall>k<length [(8::nat, ''}''), (9, ''}'')].
      ts_inRoot (foldl scanLine \<lparr>ts_braceDepth = 0, ts_inRoot = False, ts_rootDepth = - 1, ts_tokens = []\<rparr>
        ([(0, ''@layer tokens {''), (1, '':root {''), (2, ''  --semantic-x: red;''), (3, ''}''), (4, ''}''),
          (5, ''@layer themes {''), (6, '':root {'')] @ (7, ''  --semantic-x: blue;'')
          # take (Suc k) [(8, ''}''), (9, ''}'')]))
      \<longrightarrow> map_option fst (defMatch (trim (snd ([(8::nat, ''}''), (9, ''}'')] ! k)))) \<noteq> Some ''--semantic-x''"
  proof (intro allI impI)
    fix k :: nat
    assume "k < length [(8::nat, ''}''), (9, ''}'')]"
    then have "k = 0 \<or> k = 1" by auto
    then show "map_option fst (defMatch (trim (snd ([(8::nat, ''}''), (9, ''}'')] ! k)))) \<noteq> Some ''--semantic-x''"
      using close by auto
  qed
  have e1: "enumerate 0 (splitLines (''@layer tokens {'' @ [CHR 0x0A] @ '':root {'' @ [CHR 0x0A]
        @ ''  --semantic-x: red;'' @ [CHR 0x0A] @ ''}'' @ [CHR 0x0A] @ ''}'' @ [CHR 0x0A]
        @ ''@layer themes {'' @ [CHR 0x0A] @ '':root {'' @ [CHR 0x0A]
        @ ''  --semantic-x: blue;'' @ [CHR 0x0A] @ ''}'' @ [CHR 0x0A] @ ''}''))
      = [(0, ''@layer tokens {''), (1, '':root {'')] @ (2, ''  --semantic-x: red;'')
        # [(3, ''}''), (4, ''}''), (5, ''@layer themes {''), (6, '':root {''),
           (7, ''  --semantic-x: blue;''), (8, ''}''), (9, ''}'')]"
    using e by simp
  have e2: "enumerate 0 (splitLines (''@layer tokens {'' @ [CHR 0x0A] @ '':root {'' @ [CHR 0x0A]
        @ ''  --semantic-x: red;'' @ [CHR 0x0A] @ ''}'' @ [CHR 0x0A] @ ''}'' @ [CHR 0x0A]
        @ ''@layer themes {'' @ [CHR 0x0A] @ '':root {'' @ [CHR 0x0A]
        @ ''  --semantic-x: blue;'' @ [CHR 0x0A] @ ''}'' @ [CHR 0x0A] @ ''}''))
      = [(0, ''@layer tokens {''), (1, '':root {''), (2, ''  --semantic-x: red;''), (3, ''}''), (4, ''}''),
         (5, ''@layer themes {''), (6, '':root {'')] @ (7, ''  --semantic-x: blue;'')
        # [(8, ''}''), (9, ''}'')]"
    using e by simp
  have first: "\<exists>layer. map_of (tokenDefs (parseCSS (''@layer tokens {'' @ [CHR 0x0A] @ '':root {'' @ [CHR 0x0A]
        @ ''  --semantic-x: red;'' @ [CHR 0x0A] @ ''}'' @ [CHR 0x0A] @ ''}'' @ [CHR 0x0A]
        @ ''@layer themes {'' @ [CHR 0x0A] @ '':root {'' @ [CHR 0x0A]
        @ ''  --semantic-x: blue;'' @ [CHR 0x0A] @ ''}'' @ [CHR 0x0A] @ ''}''))) ''--semantic-x''
      = Some \<lparr>td_value = ''red'', td_refs = [], td_line = 3, td_layer = layer\<rparr>"
    using first_wins_in_validator_last_in_sync[THEN conjunct1, rule_format, OF conjI[OF e1 conjI[OF r1 conjI[OF red n1]]]]
    by (simp add: refs)
  have last: "map_of (parseCSSTokens (''@layer tokens {'' @ [CHR 0x0A] @ '':root {'' @ [CHR 0x0A]
        @ ''  --semantic-x: red;'' @ [CHR 0x0A] @ ''}'' @ [CHR 0x0A] @ ''}'' @ [CHR 0x0A]
        @ ''@layer themes {'' @ [CHR 0x0A] @ '':root {'' @ [CHR 0x0A]
        @ ''  --semantic-x: blue;'' @ [CHR 0x0A] @ ''}'' @ [CHR 0x0A] @ ''}'')) ''--semantic-x'' = Some \<lparr>ct_value = ''blue'', ct_line = 8\<rparr>"
    using first_wins_in_validator_last_in_sync[THEN conjunct2, rule_format, OF conjI[OF e2 conjI[OF r2 conjI[OF blue later]]]]
    by simp
  from first last show ?thesis by blast
qed

text \<open>
  A stylesheet whose root scope defines \<^verbatim>\<open>--primitive-x\<close> twice, first as \<^verbatim>\<open>1px\<close>, then as
  \<^verbatim>\<open>2px\<close>: the extraction that feeds the diff engine holds the second value, not the
  first, which the validator's extraction holds.
\<close>

theorem parseCSSTokens_keeps_last_definition:
  "map_of (parseCSSTokens ('':root {'' @ [CHR 0x0A] @ ''  --primitive-x: 1px;'' @ [CHR 0x0A]
                            @ ''  --primitive-x: 2px;'' @ [CHR 0x0A] @ ''}'')) ''--primitive-x''
     = Some \<lparr>ct_value = ''2px'', ct_line = 3\<rparr>
   \<and> map_of (tokenDefs (parseCSS ('':root {'' @ [CHR 0x0A] @ ''  --primitive-x: 1px;'' @ [CHR 0x0A]
                            @ ''  --primitive-x: 2px;'' @ [CHR 0x0A] @ ''}''))) ''--primitive-x''
     = Some \<lparr>td_value = ''1px'', td_refs = [], td_line = 2, td_layer = None\<rparr>"
  by code_simp

lemma chain_reach:
  "chain g N (f # rest) \<Longrightarrow> x \<in> fst ` set rest \<Longrightarrow> (x, fst f) \<in> (edgeRel g N)\<^sup>+"
proof (induction rest arbitrary: f)
  case Nil
  then show ?case by simp
next
  case (Cons e rest)
  obtain n c where e: "e = (n, c)" by (cases e)
  from Cons.prems(1) e have c: "0 < c" "c \<le> length (getDeps g n)" "getDeps g n ! (c - 1) = fst f"
    "fst f \<in> N" "chain g N ((n, c) # rest)"
    by auto
  then have "fst f \<in> set (getDeps g n)"
    by (metis One_nat_def Suc_pred less_eq_Suc_le nth_mem)
  with c(4) have step: "(n, fst f) \<in> edgeRel g N" by (simp add: edgeRel_def)
  show ?case
  proof (cases "x = n")
    case True
    with step show ?thesis by auto
  next
    case False
    with Cons.prems(2) e have "x \<in> fst ` set rest" by auto
    from Cons.IH[OF c(5)[unfolded e[symmetric]] this] e have "(x, n) \<in> (edgeRel g N)\<^sup>+" by simp
    with step show ?thesis by (meson trancl.trancl_into_trancl)
  qed
qed

lemma count_one_not_before:
  "count_list xs x = 1 \<Longrightarrow> i < length xs \<Longrightarrow> xs ! i = x \<Longrightarrow> x \<notin> set (take i xs)"
proof -
  assume a: "count_list xs x = 1" "i < length xs" "xs ! i = x"
  then have "xs = take i xs @ x # drop (Suc i) xs" using id_take_nth_drop[of i xs] by simp
  then have "count_list xs x = count_list (take i xs) x + 1 + count_list (drop (Suc i) xs) x"
    by (metis (no_types, lifting) add.assoc add.commute count_list.simps(2) count_list_append)
  with a(1) have "count_list (take i xs) x = 0" by simp
  then show ?thesis by (simp add: count_list_0_iff)
qed

lemma count_one_mem: "count_list xs x = 1 \<Longrightarrow> x \<in> set xs"
  by (metis count_list_0_iff zero_neq_one)

text \<open>
  A reference to a gray node is one of the two edges of the cycle, and the node below the
  top of the stack is the other end, entered by the other edge.
\<close>

lemma report_shape:
  assumes two: "twoCycleOnly g N A B"
    and dist: "distinct (map fst ((u, c) # rest))"
    and gray: "\<forall>n. cf n = GRAY \<longleftrightarrow> n \<in> fst ` set ((u, c) # rest)"
    and ch: "chain g N ((u, c) # rest)"
    and c: "c < length (getDeps g u)" and v: "getDeps g u ! c = v" and vN: "v \<in> N" and vg: "cf v = GRAY"
  shows "(u = B \<and> v = A \<and> (\<exists>i rest'. rest = (A, i) # rest' \<and> 0 < i \<and> i \<le> length (getDeps g A)
                                 \<and> getDeps g A ! (i - 1) = B))
       \<or> (u = A \<and> v = B \<and> (\<exists>i rest'. rest = (B, i) # rest' \<and> 0 < i \<and> i \<le> length (getDeps g B)
                                 \<and> getDeps g B ! (i - 1) = A))"
proof -
  let ?E = "edgeRel g N"
  from two have only: "\<And>x y. (x, y) \<in> ?E \<Longrightarrow> (y, x) \<in> ?E\<^sup>* \<Longrightarrow> (x = A \<and> y = B) \<or> (x = B \<and> y = A)"
    and ne: "A \<noteq> B"
    by (auto simp: twoCycleOnly_def)
  from c v vN have uv: "(u, v) \<in> ?E" by (auto simp: edgeRel_def)
  have "v \<noteq> u"
  proof
    assume "v = u"
    with uv only[of u u] ne show False by auto
  qed
  with vg gray have vrest: "v \<in> fst ` set rest" by auto
  from chain_reach[OF ch vrest] have vu: "(v, u) \<in> ?E\<^sup>*" by simp
  from only[OF uv vu] have ends: "(u = A \<and> v = B) \<or> (u = B \<and> v = A)" .
  from vrest obtain m i rest' where rest: "rest = (m, i) # rest'" by (cases rest) auto
  from ch rest have m: "0 < i" "i \<le> length (getDeps g m)" "getDeps g m ! (i - 1) = u" "u \<in> N"
    "chain g N ((m, i) # rest')"
    by auto
  then have "u \<in> set (getDeps g m)"
    by (metis One_nat_def Suc_pred less_eq_Suc_le nth_mem)
  with m(4) have mu: "(m, u) \<in> ?E" by (simp add: edgeRel_def)
  have "(v, m) \<in> ?E\<^sup>*"
  proof (cases "v = m")
    case True
    then show ?thesis by simp
  next
    case False
    with vrest rest have "v \<in> fst ` set rest'" by auto
    from chain_reach[OF m(5) this] show ?thesis by simp
  qed
  with uv have "(u, m) \<in> ?E\<^sup>*" by (meson converse_rtrancl_into_rtrancl)
  from only[OF mu this] have "(m = A \<and> u = B) \<or> (m = B \<and> u = A)" .
  with ends ne rest m show ?thesis by auto
qed

lemma consumed_advance:
  assumes "distinct (map fst ((u, c) # rest))" and "c < length (getDeps g u)"
  shows "consumed g cf ((u, Suc c) # rest) a b
         \<longleftrightarrow> consumed g cf ((u, c) # rest) a b \<or> (a = u \<and> b = getDeps g u ! c)"
proof -
  have notin: "(u, i) \<notin> set rest" for i
    using assms(1) by (auto simp: image_iff)
  have "set (take (Suc c) (getDeps g u)) = insert (getDeps g u ! c) (set (take c (getDeps g u)))"
    using assms(2) by (simp add: take_Suc_conv_app_nth)
  with notin show ?thesis
    by (auto simp: consumed_def)
qed

lemma consumed_push:
  assumes "distinct (map fst ((u, c) # rest))" and "c < length (getDeps g u)"
    and "cf v = WHITE" and "\<forall>n. cf n = GRAY \<longleftrightarrow> n \<in> fst ` set ((u, c) # rest)"
  shows "consumed g (cf(v := GRAY)) ((v, 0) # (u, Suc c) # rest) a b
         \<longleftrightarrow> consumed g cf ((u, c) # rest) a b \<or> (a = u \<and> b = getDeps g u ! c)"
proof -
  have "consumed g (cf(v := GRAY)) ((v, 0) # (u, Suc c) # rest) a b
        \<longleftrightarrow> consumed g cf ((u, Suc c) # rest) a b"
    using assms(3) by (auto simp: consumed_def)
  with consumed_advance[OF assms(1,2)] show ?thesis by simp
qed

lemma consumed_pop:
  assumes "distinct (map fst ((u, c) # rest))" and "length (getDeps g u) \<le> c"
    and "b \<in> set (getDeps g a)" and "cf u = GRAY"
  shows "consumed g (cf(u := BLACK)) rest a b \<longleftrightarrow> consumed g cf ((u, c) # rest) a b"
proof -
  have notin: "(u, i) \<notin> set rest" for i
    using assms(1) by (auto simp: image_iff)
  show ?thesis
  proof (cases "a = u")
    case True
    with assms(2,3) show ?thesis by (auto simp: consumed_def)
  next
    case False
    then show ?thesis by (auto simp: consumed_def)
  qed
qed

lemma consumed_start:
  assumes "cf s = WHITE"
  shows "consumed g (cf(s := GRAY)) [(s, 0)] a b \<longleftrightarrow> consumed g cf [] a b"
  using assms by (auto simp: consumed_def)

lemma aboveIn_push: "aboveIn names b a \<Longrightarrow> aboveIn (v # names) b a"
  unfolding aboveIn_def by (metis append_Cons list.set_intros(2))

lemma aboveIn_top: "a \<in> set names \<Longrightarrow> aboveIn (v # names) v a"
proof -
  assume "a \<in> set names"
  then obtain xs ys where "names = xs @ a # ys" by (meson split_list)
  then have "v # names = (v # xs) @ a # ys \<and> v \<in> set (v # xs)" by simp
  then show ?thesis unfolding aboveIn_def by blast
qed

lemma aboveIn_pop:
  assumes "aboveIn (u # names) b a" and "b \<noteq> u"
  shows "aboveIn names b a"
proof -
  from assms(1) obtain above below where s: "u # names = above @ a # below" and b: "b \<in> set above"
    unfolding aboveIn_def by blast
  from b obtain x above' where above: "above = x # above'" by (cases above) auto
  with s have "x = u" "names = above' @ a # below" by auto
  with b above assms(2) show ?thesis unfolding aboveIn_def by auto
qed

lemma aboveIn_mem: "aboveIn names b a \<Longrightarrow> a \<in> set names \<and> b \<in> set names"
  unfolding aboveIn_def by auto

lemma aboveIn_not_top: "distinct (a # names) \<Longrightarrow> \<not> aboveIn (a # names) b a"
proof
  assume d: "distinct (a # names)" and "aboveIn (a # names) b a"
  then obtain above below where s: "a # names = above @ a # below" and b: "b \<in> set above"
    unfolding aboveIn_def by blast
  from b obtain x above' where above: "above = x # above'" by (cases above) auto
  with s have "x = a" "names = above' @ a # below" by auto
  with d show False by auto
qed

lemma chain_advance: "chain g N ((u, c) # rest) \<Longrightarrow> chain g N ((u, c') # rest)"
  by (cases rest) auto

lemma chain_push:
  "chain g N ((u, c) # rest) \<Longrightarrow> c < length (getDeps g u) \<Longrightarrow> getDeps g u ! c = v \<Longrightarrow> v \<in> N \<Longrightarrow>
   chain g N ((v, 0) # (u, Suc c) # rest)"
  by (cases rest) auto

lemma chain_pop: "chain g N (f # rest) \<Longrightarrow> chain g N rest"
  by (cases rest) (auto simp: prod.case_eq_if split: prod.splits)

text \<open>An edge that is skipped: its target is not live, or finished.\<close>

lemma searchInv_skip:
  assumes two: "twoCycleOnly g N A B"
    and inv: "searchInv g N A B cf cycles ((u, c) # rest)"
    and c: "c < length (getDeps g u)" and v: "getDeps g u ! c = v"
    and skip: "v \<notin> N \<or> cf v = BLACK"
  shows "searchInv g N A B cf cycles ((u, Suc c) # rest)"
proof -
  from inv have dist: "distinct (map fst ((u, c) # rest))"
    and gray: "\<forall>n. cf n = GRAY \<longleftrightarrow> n \<in> fst ` set ((u, c) # rest)"
    and ch: "chain g N ((u, c) # rest)"
    and pr: "progress g A B cf cycles ((u, c) # rest)"
    by (auto simp: searchInv_def)
  from two have AN: "A \<in> N" and BN: "B \<in> N" by (auto simp: twoCycleOnly_def)
  note adv = consumed_advance[OF dist c, of cf]
  have names: "map fst ((u, Suc c) # rest) = map fst ((u, c) # rest)" by simp
  have "progress g A B cf cycles ((u, Suc c) # rest)"
  proof (cases "(u = A \<and> v = B) \<or> (u = B \<and> v = A)")
    case False
    then have "consumed g cf ((u, Suc c) # rest) A B = consumed g cf ((u, c) # rest) A B"
      "consumed g cf ((u, Suc c) # rest) B A = consumed g cf ((u, c) # rest) B A"
      using adv v by auto
    with pr show ?thesis unfolding progress_def names by simp
  next
    case True
    then show ?thesis
    proof
      assume uv: "u = A \<and> v = B"
      with skip BN have black: "cf B = BLACK" by simp
      then have cBA: "consumed g cf ((u, c) # rest) B A" by (simp add: consumed_def)
      from black gray have "B \<notin> set (map fst ((u, c) # rest))"
        by (metis colour.distinct(5) list.set_map)
      then have "\<not> aboveIn (map fst ((u, c) # rest)) A B" using aboveIn_mem by blast
      with pr cBA have "(cycles = [[A, B, A]] \<or> cycles = [[B, A, B]])
          \<and> consumed g cf ((u, c) # rest) A B \<and> consumed g cf ((u, c) # rest) B A"
        unfolding progress_def by auto
      then show ?thesis unfolding progress_def using adv by auto
    next
      assume uv: "u = B \<and> v = A"
      with skip AN have black: "cf A = BLACK" by simp
      then have cAB: "consumed g cf ((u, c) # rest) A B" by (simp add: consumed_def)
      from black gray have "A \<notin> set (map fst ((u, c) # rest))"
        by (metis colour.distinct(5) list.set_map)
      then have "\<not> aboveIn (map fst ((u, c) # rest)) B A" using aboveIn_mem by blast
      with pr cAB have "(cycles = [[A, B, A]] \<or> cycles = [[B, A, B]])
          \<and> consumed g cf ((u, c) # rest) A B \<and> consumed g cf ((u, c) # rest) B A"
        unfolding progress_def by auto
      then show ?thesis unfolding progress_def using adv by auto
    qed
  qed
  with dist gray chain_advance[OF ch] show ?thesis
    by (simp add: searchInv_def)
qed

lemma indexOf_fresh: "x \<notin> set pre \<Longrightarrow> indexOf (pre @ x # xs) x = int (length pre)"
  by (induction pre) (auto simp: Let_def)

lemma sliceFrom_fresh: "x \<notin> set pre \<Longrightarrow> sliceFrom (pre @ x # xs) (indexOf (pre @ x # xs) x) = x # xs"
  by (simp add: indexOf_fresh sliceFrom_def)

lemma nth_before_mem: "0 < i \<Longrightarrow> i \<le> length xs \<Longrightarrow> xs ! (i - 1) \<in> set (take i xs)"
proof -
  assume a: "0 < i" "i \<le> length xs"
  then have "take i xs ! (i - 1) = xs ! (i - 1)" by simp
  moreover from a have "i - 1 < length (take i xs)" by simp
  ultimately show ?thesis by (metis nth_mem)
qed

text \<open>An edge to a gray node: the cycle is reported, for the first and only time.\<close>

lemma searchInv_report:
  assumes two: "twoCycleOnly g N A B"
    and inv: "searchInv g N A B cf cycles ((u, c) # rest)"
    and c: "c < length (getDeps g u)" and v: "getDeps g u ! c = v"
    and vN: "v \<in> N" and vg: "cf v = GRAY"
    and path: "path = rev (map fst ((u, c) # rest))"
  shows "searchInv g N A B cf (cycles @ [sliceFrom path (indexOf path v) @ [v]]) ((u, Suc c) # rest)"
proof -
  from inv have dist: "distinct (map fst ((u, c) # rest))"
    and gray: "\<forall>n. cf n = GRAY \<longleftrightarrow> n \<in> fst ` set ((u, c) # rest)"
    and ch: "chain g N ((u, c) # rest)"
    and pr: "progress g A B cf cycles ((u, c) # rest)"
    by (auto simp: searchInv_def)
  from two have cntA: "count_list (getDeps g A) B = 1" and cntB: "count_list (getDeps g B) A = 1"
    by (auto simp: twoCycleOnly_def)
  note adv = consumed_advance[OF dist c, of cf]
  have names: "map fst ((u, Suc c) # rest) = map fst ((u, c) # rest)" by simp
  have notin: "(u, i) \<notin> set rest" for i
    using dist by (auto simp: image_iff)
  from report_shape[OF two dist gray ch c v vN vg]
  have "progress g A B cf (cycles @ [sliceFrom path (indexOf path v) @ [v]]) ((u, Suc c) # rest)"
  proof
    assume "u = B \<and> v = A \<and> (\<exists>i rest'. rest = (A, i) # rest' \<and> 0 < i \<and> i \<le> length (getDeps g A)
                                 \<and> getDeps g A ! (i - 1) = B)"
    then obtain i rest' where uv: "u = B" "v = A" and rest: "rest = (A, i) # rest'"
      and i: "0 < i" "i \<le> length (getDeps g A)" "getDeps g A ! (i - 1) = B"
      by blast
    from nth_before_mem[OF i(1,2)] i(3) have "B \<in> set (take i (getDeps g A))" by simp
    with rest have cAB: "consumed g cf ((u, c) # rest) A B" by (auto simp: consumed_def)
    have "A \<notin> set (take c (getDeps g B))"
      using count_one_not_before[OF cntB] c v uv by simp
    moreover from vg uv gray have "cf B = GRAY" by auto
    ultimately have ncBA: "\<not> consumed g cf ((u, c) # rest) B A"
      using notin uv by (auto simp: consumed_def)
    from pr cAB ncBA have empty: "cycles = []" unfolding progress_def by auto
    from dist rest uv have "A \<notin> set (rev (map fst rest'))" by auto
    then have "sliceFrom path (indexOf path v) = [A, B]"
      using sliceFrom_fresh[of A "rev (map fst rest')" "[B]"] path rest uv by simp
    with empty uv have cyc: "cycles @ [sliceFrom path (indexOf path v) @ [v]] = [[A, B, A]]" by simp
    have "consumed g cf ((u, Suc c) # rest) A B" "consumed g cf ((u, Suc c) # rest) B A"
      using adv cAB uv v by auto
    then show ?thesis unfolding progress_def cyc by blast
  next
    assume "u = A \<and> v = B \<and> (\<exists>i rest'. rest = (B, i) # rest' \<and> 0 < i \<and> i \<le> length (getDeps g B)
                                 \<and> getDeps g B ! (i - 1) = A)"
    then obtain i rest' where uv: "u = A" "v = B" and rest: "rest = (B, i) # rest'"
      and i: "0 < i" "i \<le> length (getDeps g B)" "getDeps g B ! (i - 1) = A"
      by blast
    from nth_before_mem[OF i(1,2)] i(3) have "A \<in> set (take i (getDeps g B))" by simp
    with rest have cBA: "consumed g cf ((u, c) # rest) B A" by (auto simp: consumed_def)
    have "B \<notin> set (take c (getDeps g A))"
      using count_one_not_before[OF cntA] c v uv by simp
    moreover from vg uv gray have "cf A = GRAY" by auto
    ultimately have ncAB: "\<not> consumed g cf ((u, c) # rest) A B"
      using notin uv by (auto simp: consumed_def)
    from pr cBA ncAB have empty: "cycles = []" unfolding progress_def by auto
    from dist rest uv have "B \<notin> set (rev (map fst rest'))" by auto
    then have "sliceFrom path (indexOf path v) = [B, A]"
      using sliceFrom_fresh[of B "rev (map fst rest')" "[A]"] path rest uv by simp
    with empty uv have cyc: "cycles @ [sliceFrom path (indexOf path v) @ [v]] = [[B, A, B]]" by simp
    have "consumed g cf ((u, Suc c) # rest) A B" "consumed g cf ((u, Suc c) # rest) B A"
      using adv cBA uv v by auto
    then show ?thesis unfolding progress_def cyc by blast
  qed
  with dist gray chain_advance[OF ch] show ?thesis
    by (simp add: searchInv_def)
qed

text \<open>An edge to a white node: the node is entered.\<close>

lemma searchInv_push:
  assumes two: "twoCycleOnly g N A B"
    and inv: "searchInv g N A B cf cycles ((u, c) # rest)"
    and c: "c < length (getDeps g u)" and v: "getDeps g u ! c = v"
    and vN: "v \<in> N" and vw: "cf v = WHITE"
  shows "searchInv g N A B (cf(v := GRAY)) cycles ((v, 0) # (u, Suc c) # rest)"
proof -
  from inv have dist: "distinct (map fst ((u, c) # rest))"
    and gray: "\<forall>n. cf n = GRAY \<longleftrightarrow> n \<in> fst ` set ((u, c) # rest)"
    and ch: "chain g N ((u, c) # rest)"
    and pr: "progress g A B cf cycles ((u, c) # rest)"
    by (auto simp: searchInv_def)
  from two have cntA: "count_list (getDeps g A) B = 1" and cntB: "count_list (getDeps g B) A = 1"
    by (auto simp: twoCycleOnly_def)
  have notin: "(u, i) \<notin> set rest" for i
    using dist by (auto simp: image_iff)
  from vw gray have vfresh: "v \<notin> fst ` set ((u, c) # rest)"
    by (metis colour.distinct(1))
  note psh = consumed_push[where cf = cf and v = v, OF dist c vw gray]
  have nm: "map fst ((v, 0) # (u, Suc c) # rest) = v # map fst ((u, c) # rest)" by simp
  have "progress g A B (cf(v := GRAY)) cycles ((v, 0) # (u, Suc c) # rest)"
  proof (cases "(u = A \<and> v = B) \<or> (u = B \<and> v = A)")
    case False
    then have same: "consumed g (cf(v := GRAY)) ((v, 0) # (u, Suc c) # rest) A B
        = consumed g cf ((u, c) # rest) A B"
      "consumed g (cf(v := GRAY)) ((v, 0) # (u, Suc c) # rest) B A
        = consumed g cf ((u, c) # rest) B A"
      using psh v by auto
    from pr show ?thesis
      unfolding progress_def same nm using aboveIn_push by blast
  next
    case True
    then show ?thesis
    proof
      assume uv: "u = A \<and> v = B"
      have "B \<notin> set (take c (getDeps g A))"
        using count_one_not_before[OF cntA] c v uv by simp
      moreover from uv gray have "cf A = GRAY" by auto
      ultimately have ncAB: "\<not> consumed g cf ((u, c) # rest) A B"
        using notin uv by (auto simp: consumed_def)
      from vw uv vfresh have ncBA: "\<not> consumed g cf ((u, c) # rest) B A"
        by (force simp: consumed_def)
      from pr ncAB ncBA have empty: "cycles = []" unfolding progress_def by auto
      have "aboveIn (map fst ((v, 0) # (u, Suc c) # rest)) B A"
        unfolding nm using aboveIn_top[of A "map fst ((u, c) # rest)" v] uv by simp
      moreover have "consumed g (cf(v := GRAY)) ((v, 0) # (u, Suc c) # rest) A B"
        using psh uv v by auto
      moreover have "\<not> consumed g (cf(v := GRAY)) ((v, 0) # (u, Suc c) # rest) B A"
        using psh uv v ncBA two by (auto simp: twoCycleOnly_def)
      ultimately show ?thesis using empty unfolding progress_def by blast
    next
      assume uv: "u = B \<and> v = A"
      have "A \<notin> set (take c (getDeps g B))"
        using count_one_not_before[OF cntB] c v uv by simp
      moreover from uv gray have "cf B = GRAY" by auto
      ultimately have ncBA: "\<not> consumed g cf ((u, c) # rest) B A"
        using notin uv by (auto simp: consumed_def)
      from vw uv vfresh have ncAB: "\<not> consumed g cf ((u, c) # rest) A B"
        by (force simp: consumed_def)
      from pr ncAB ncBA have empty: "cycles = []" unfolding progress_def by auto
      have "aboveIn (map fst ((v, 0) # (u, Suc c) # rest)) A B"
        unfolding nm using aboveIn_top[of B "map fst ((u, c) # rest)" v] uv by simp
      moreover have "consumed g (cf(v := GRAY)) ((v, 0) # (u, Suc c) # rest) B A"
        using psh uv v by auto
      moreover have "\<not> consumed g (cf(v := GRAY)) ((v, 0) # (u, Suc c) # rest) A B"
        using psh uv v ncAB two by (auto simp: twoCycleOnly_def)
      ultimately show ?thesis using empty unfolding progress_def by blast
    qed
  qed
  moreover have "distinct (map fst ((v, 0) # (u, Suc c) # rest))"
    using dist vfresh by (auto simp: image_iff)
  moreover have "\<forall>n. (cf(v := GRAY)) n = GRAY \<longleftrightarrow> n \<in> fst ` set ((v, 0) # (u, Suc c) # rest)"
    using gray by auto
  moreover have "chain g N ((v, 0) # (u, Suc c) # rest)"
    using chain_push[OF ch c v vN] .
  ultimately show ?thesis by (simp add: searchInv_def)
qed

text \<open>A node with no edge left: it is finished and leaves the stack.\<close>

lemma searchInv_pop:
  assumes two: "twoCycleOnly g N A B"
    and inv: "searchInv g N A B cf cycles ((u, c) # rest)"
    and c: "length (getDeps g u) \<le> c"
  shows "searchInv g N A B (cf(u := BLACK)) cycles rest"
proof -
  from inv have dist: "distinct (map fst ((u, c) # rest))"
    and gray: "\<forall>n. cf n = GRAY \<longleftrightarrow> n \<in> fst ` set ((u, c) # rest)"
    and ch: "chain g N ((u, c) # rest)"
    and pr: "progress g A B cf cycles ((u, c) # rest)"
    by (auto simp: searchInv_def)
  from two have memA: "B \<in> set (getDeps g A)" and memB: "A \<in> set (getDeps g B)"
    by (auto simp: twoCycleOnly_def count_one_mem)
  from gray have ug: "cf u = GRAY" by auto
  have cAB: "consumed g (cf(u := BLACK)) rest A B = consumed g cf ((u, c) # rest) A B"
    by (rule consumed_pop[where cf = cf and u = u and c = c, OF dist c memA ug])
  have cBA: "consumed g (cf(u := BLACK)) rest B A = consumed g cf ((u, c) # rest) B A"
    by (rule consumed_pop[where cf = cf and u = u and c = c, OF dist c memB ug])
  have top: "consumed g cf ((u, c) # rest) u b" if "b \<in> set (getDeps g u)" for b
    using that c by (auto simp: consumed_def)
  have nm: "map fst ((u, c) # rest) = u # map fst rest" by simp
  have "progress g A B (cf(u := BLACK)) cycles rest"
  proof -
    have keepBA: "aboveIn (map fst rest) B A"
      if "aboveIn (map fst ((u, c) # rest)) B A" "\<not> consumed g cf ((u, c) # rest) B A"
    proof -
      have "B \<noteq> u" using that(2) top[of A] memB by auto
      with that(1) show ?thesis unfolding nm by (rule aboveIn_pop)
    qed
    have keepAB: "aboveIn (map fst rest) A B"
      if "aboveIn (map fst ((u, c) # rest)) A B" "\<not> consumed g cf ((u, c) # rest) A B"
    proof -
      have "A \<noteq> u" using that(2) top[of B] memA by auto
      with that(1) show ?thesis unfolding nm by (rule aboveIn_pop)
    qed
    from pr keepBA keepAB show ?thesis
      unfolding progress_def cAB cBA by blast
  qed
  moreover have "distinct (map fst rest)" using dist by simp
  moreover have "\<forall>n. (cf(u := BLACK)) n = GRAY \<longleftrightarrow> n \<in> fst ` set rest"
    using gray dist by (auto simp: image_iff)
  moreover have "chain g N rest" using chain_pop[OF ch] .
  ultimately show ?thesis by (simp add: searchInv_def)
qed

text \<open>A search starts at a white node, on an empty stack.\<close>

lemma searchInv_start:
  assumes inv: "searchInv g N A B cf cycles []" and sw: "cf s = WHITE"
  shows "searchInv g N A B (cf(s := GRAY)) cycles [(s, 0)]"
proof -
  from inv have gray: "\<forall>n. cf n \<noteq> GRAY" and pr: "progress g A B cf cycles []"
    by (auto simp: searchInv_def)
  have na: "\<not> aboveIn [] x y" for x y by (simp add: aboveIn_def)
  have na1: "\<not> aboveIn [s] x y" for x y
    unfolding aboveIn_def by (auto simp: Cons_eq_append_conv)
  from pr have "progress g A B (cf(s := GRAY)) cycles [(s, 0)]"
    unfolding progress_def consumed_start[where cf = cf and s = s, OF sw] using na na1 by simp
  with gray show ?thesis by (auto simp: searchInv_def)
qed

text \<open>When every search is over, the cycle has been reported once.\<close>

lemma searchInv_final:
  assumes "searchInv g N A B cf cycles []" and "cf A = BLACK" and "cf B = BLACK"
  shows "cycles = [[A, B, A]] \<or> cycles = [[B, A, B]]"
  using assms by (auto simp: searchInv_def progress_def consumed_def aboveIn_def)

lemma searchInv_initial:
  "searchInv g N A B (\<lambda>n. WHITE) [] []"
  by (auto simp: searchInv_def progress_def consumed_def)

lemma col_update: "col (AList.update k c color) = (col color)(k := c)"
  by (auto simp: col_def update_conv' fun_eq_iff)

lemma col_None: "map_of color n = None \<Longrightarrow> col color n = WHITE"
  by (simp add: col_def)

lemma col_Some: "map_of color n = Some c \<Longrightarrow> col color n = c"
  by (simp add: col_def)

lemma col_dom: "col color n \<noteq> WHITE \<Longrightarrow> n \<in> fst ` set color"
  by (cases "map_of color n") (auto simp: col_def dest: map_of_SomeD intro: rev_image_eqI)

lemma drop_Cons_nth: "drop c xs = d # ds \<Longrightarrow> c < length xs \<and> xs ! c = d \<and> drop (Suc c) xs = ds"
proof -
  assume a: "drop c xs = d # ds"
  then have c: "c < length xs" by (metis drop_all list.distinct(1) not_le_imp_less)
  then have "drop c xs = xs ! c # drop (Suc c) xs" by (simp add: Cons_nth_drop_Suc)
  with a c show ?thesis by simp
qed

text \<open>The scan of the remaining edges of the top node, in the validator's search.\<close>

lemma scanDeps_searchInv:
  assumes two: "twoCycleOnly g N A B" and dom: "fst ` set color = N"
    and path: "path = rev (map fst ((u, c) # rest))"
  shows "searchInv g N A B (col color) cycles ((u, c) # rest) \<Longrightarrow> ds = drop c (getDeps g u) \<Longrightarrow>
    (case scanDeps color path ds c cycles of
       (None, c', cycles') \<Rightarrow>
         searchInv g N A B (col color) cycles' ((u, c') # rest) \<and> length (getDeps g u) \<le> c'
     | (Some dep, c', cycles') \<Rightarrow>
         0 < c' \<and> c' - 1 < length (getDeps g u) \<and> getDeps g u ! (c' - 1) = dep \<and> dep \<in> N
         \<and> col color dep = WHITE \<and> searchInv g N A B (col color) cycles' ((u, c' - 1) # rest))"
proof (induction ds arbitrary: c cycles)
  case Nil
  then show ?case by simp
next
  case (Cons d ds)
  from drop_Cons_nth[OF Cons.prems(2)[symmetric]]
  have c: "c < length (getDeps g u)" and d: "getDeps g u ! c = d" and ds: "ds = drop (Suc c) (getDeps g u)"
    by auto
  have path': "path = rev (map fst ((u, c) # rest))" for c
    using path by simp
  show ?case
  proof (cases "map_of color d")
    case None
    then have "d \<notin> N" using dom by (simp add: map_of_eq_None_iff)
    then have "searchInv g N A B (col color) cycles ((u, Suc c) # rest)"
      using searchInv_skip[OF two Cons.prems(1) c d] by simp
    from Cons.IH[OF this ds] None show ?thesis by simp
  next
    case (Some clr)
    then have dN: "d \<in> N" using dom by (metis map_of_eq_None_iff option.distinct(1))
    from Some have cd: "col color d = clr" by (rule col_Some)
    show ?thesis
    proof (cases clr)
      case WHITE
      with Some cd dN c d Cons.prems(1) show ?thesis by simp
    next
      case GRAY
      have "searchInv g N A B (col color) (cycles @ [sliceFrom path (indexOf path d) @ [d]]) ((u, Suc c) # rest)"
        using searchInv_report[OF two Cons.prems(1) c d dN _ path'] cd GRAY by simp
      from Cons.IH[OF this ds] Some GRAY show ?thesis by simp
    next
      case BLACK
      then have "searchInv g N A B (col color) cycles ((u, Suc c) # rest)"
        using searchInv_skip[OF two Cons.prems(1) c d] cd by simp
      from Cons.IH[OF this ds] Some BLACK show ?thesis by simp
    qed
  qed
qed

text \<open>
  One search of the validator, from any state of its loop: it ends with an empty stack,
  keeps the keys of the colour map and turns no node white.
\<close>

lemma dfsLoop_searchInv:
  "twoCycleOnly g N A B \<Longrightarrow> fst ` set color = N \<Longrightarrow> searchInv g N A B (col color) cycles stack \<Longrightarrow>
    path = rev (map fst stack) \<Longrightarrow>
    searchInv g N A B (col (fst (dfsLoop g color cycles stack path))) (snd (dfsLoop g color cycles stack path)) []
    \<and> fst ` set (fst (dfsLoop g color cycles stack path)) = N
    \<and> (\<forall>n. col color n \<noteq> WHITE \<longrightarrow> col (fst (dfsLoop g color cycles stack path)) n \<noteq> WHITE)"
proof (induction g color cycles stack path rule: dfsLoop.induct)
  case (1 g color cycles path)
  then show ?case by simp
next
  case (2 g color cycles frame callStack path)
  note two = "2.prems"(1)
  obtain u c where frame: "frame = (u, c)" by (cases frame)
  obtain r c' cycles' where sc: "scanDeps color path (drop c (getDeps g u)) c cycles = (r, c', cycles')"
    by (cases "scanDeps color path (drop c (getDeps g u)) c cycles") auto
  have inv: "searchInv g N A B (col color) cycles ((u, c) # callStack)"
    using "2.prems"(3) frame by simp
  have path: "path = rev (map fst ((u, c) # callStack))"
    using "2.prems"(4) frame by simp
  note scan = scanDeps_searchInv[OF two "2.prems"(2) path inv refl, unfolded sc]
  show ?case
  proof (cases r)
    case None
    with scan have inv': "searchInv g N A B (col color) cycles' ((u, c') # callStack)"
      and full: "length (getDeps g u) \<le> c'"
      by auto
    from inv' have ug: "col color u = GRAY" by (auto simp: searchInv_def)
    then have udom: "u \<in> fst ` set color" by (intro col_dom) simp
    have step: "dfsLoop g color cycles (frame # callStack) path
        = dfsLoop g (AList.update u BLACK color) cycles' callStack (butlast path)"
      using sc None frame by simp
    have i1: "fst ` set (AList.update u BLACK color) = N"
      using udom "2.prems"(2) by (auto simp: dom_update)
    have i2: "searchInv g N A B (col (AList.update u BLACK color)) cycles' callStack"
      using searchInv_pop[OF two inv' full] by (simp add: col_update)
    have i3: "butlast path = rev (map fst callStack)"
      using path by simp
    from "2.IH"(1)[unfolded frame fst_conv snd_conv, OF sc[symmetric] None refl two i1 i2 i3]
    have "searchInv g N A B (col (fst (dfsLoop g (AList.update u BLACK color) cycles' callStack (butlast path))))
        (snd (dfsLoop g (AList.update u BLACK color) cycles' callStack (butlast path))) []
      \<and> fst ` set (fst (dfsLoop g (AList.update u BLACK color) cycles' callStack (butlast path))) = N
      \<and> (\<forall>n. col (AList.update u BLACK color) n \<noteq> WHITE \<longrightarrow>
            col (fst (dfsLoop g (AList.update u BLACK color) cycles' callStack (butlast path))) n \<noteq> WHITE)"
      by simp
    moreover have "col color n \<noteq> WHITE \<Longrightarrow> col (AList.update u BLACK color) n \<noteq> WHITE" for n
      by (simp add: col_update)
    ultimately show ?thesis unfolding step by blast
  next
    case (Some dep)
    with scan have pos: "0 < c'" and lt: "c' - 1 < length (getDeps g u)"
      and dep: "getDeps g u ! (c' - 1) = dep" and depN: "dep \<in> N" and depw: "col color dep = WHITE"
      and inv': "searchInv g N A B (col color) cycles' ((u, c' - 1) # callStack)"
      by auto
    have step: "dfsLoop g color cycles (frame # callStack) path
        = dfsLoop g (AList.update dep GRAY color) cycles' ((dep, 0) # (u, c') # callStack) (path @ [dep])"
      using sc Some frame by simp
    have i1: "fst ` set (AList.update dep GRAY color) = N"
      using depN "2.prems"(2) by (auto simp: dom_update)
    have "searchInv g N A B ((col color)(dep := GRAY)) cycles' ((dep, 0) # (u, Suc (c' - 1)) # callStack)"
      by (rule searchInv_push[OF two inv' lt dep depN depw])
    with pos have i2: "searchInv g N A B (col (AList.update dep GRAY color)) cycles'
        ((dep, 0) # (u, c') # callStack)"
      by (simp add: col_update)
    have i3: "path @ [dep] = rev (map fst ((dep, 0) # (u, c') # callStack))"
      using path by simp
    from "2.IH"(2)[unfolded frame fst_conv snd_conv, OF sc[symmetric] Some refl two i1 i2 i3]
    have "searchInv g N A B
        (col (fst (dfsLoop g (AList.update dep GRAY color) cycles' ((dep, 0) # (u, c') # callStack) (path @ [dep]))))
        (snd (dfsLoop g (AList.update dep GRAY color) cycles' ((dep, 0) # (u, c') # callStack) (path @ [dep]))) []
      \<and> fst ` set (fst (dfsLoop g (AList.update dep GRAY color) cycles' ((dep, 0) # (u, c') # callStack) (path @ [dep]))) = N
      \<and> (\<forall>n. col (AList.update dep GRAY color) n \<noteq> WHITE \<longrightarrow>
            col (fst (dfsLoop g (AList.update dep GRAY color) cycles' ((dep, 0) # (u, c') # callStack) (path @ [dep]))) n
            \<noteq> WHITE)"
      by simp
    moreover have "col color n \<noteq> WHITE \<Longrightarrow> col (AList.update dep GRAY color) n \<noteq> WHITE" for n
      by (simp add: col_update)
    ultimately show ?thesis unfolding step by blast
  qed
qed

lemma visit_searchInv:
  assumes two: "twoCycleOnly g N A B" and dom: "fst ` set (fst acc) = N"
    and inv: "searchInv g N A B (col (fst acc)) (snd acc) []" and name: "name \<in> N"
  shows "searchInv g N A B (col (fst (visit g acc name))) (snd (visit g acc name)) []
    \<and> fst ` set (fst (visit g acc name)) = N
    \<and> (\<forall>n. col (fst acc) n \<noteq> WHITE \<longrightarrow> col (fst (visit g acc name)) n \<noteq> WHITE)
    \<and> col (fst (visit g acc name)) name \<noteq> WHITE"
proof (cases "map_of (fst acc) name = Some WHITE")
  case True
  then have w: "col (fst acc) name = WHITE" by (rule col_Some)
  have i1: "fst ` set (AList.update name GRAY (fst acc)) = N"
    using dom name by (auto simp: dom_update)
  have i2: "searchInv g N A B (col (AList.update name GRAY (fst acc))) (snd acc) [(name, 0)]"
    using searchInv_start[OF inv w] by (simp add: col_update)
  have i3: "[name] = rev (map fst [(name, 0 :: nat)])" by simp
  from dfsLoop_searchInv[OF two i1 i2 i3] True show ?thesis
    by (simp add: visit_def dfs_def col_update)
next
  case False
  from name dom obtain c where "map_of (fst acc) name = Some c"
    by (metis map_of_eq_None_iff not_Some_eq)
  with False have "col (fst acc) name \<noteq> WHITE" by (auto simp: col_def)
  with False dom inv show ?thesis by (simp add: visit_def)
qed

lemma foldl_visit_searchInv:
  assumes two: "twoCycleOnly g N A B"
  shows "fst ` set (fst acc) = N \<Longrightarrow> searchInv g N A B (col (fst acc)) (snd acc) [] \<Longrightarrow> set names \<subseteq> N \<Longrightarrow>
    searchInv g N A B (col (fst (foldl (visit g) acc names))) (snd (foldl (visit g) acc names)) []
    \<and> (\<forall>n. col (fst acc) n \<noteq> WHITE \<longrightarrow> col (fst (foldl (visit g) acc names)) n \<noteq> WHITE)
    \<and> (\<forall>n \<in> set names. col (fst (foldl (visit g) acc names)) n \<noteq> WHITE)"
proof (induction names arbitrary: acc)
  case Nil
  then show ?case by simp
next
  case (Cons name names)
  from Cons.prems(3) have nm: "name \<in> N" and rest: "set names \<subseteq> N" by auto
  note v = visit_searchInv[OF two Cons.prems(1,2) nm]
  from v have v1: "fst ` set (fst (visit g acc name)) = N"
    and v2: "searchInv g N A B (col (fst (visit g acc name))) (snd (visit g acc name)) []"
    by auto
  from Cons.IH[OF v1 v2 rest] v show ?case by auto
qed

lemma initial_colour:
  "fst ` set (foldl (\<lambda>color name. AList.update name WHITE color) acc names) = fst ` set acc \<union> set names
   \<and> (\<forall>n. col (foldl (\<lambda>color name. AList.update name WHITE color) acc names) n
          = (if n \<in> set names then WHITE else col acc n))"
  by (induction names arbitrary: acc) (auto simp: dom_update col_update)

text \<open>The validator's detector on a graph whose only cycle joins \<open>A\<close> and \<open>B\<close>.\<close>

lemma findCycles_twoCycle:
  assumes two: "twoCycleOnly g (fst ` set g) A B"
  shows "findCycles g = [[A, B, A]] \<or> findCycles g = [[B, A, B]]"
proof -
  define color where "color = foldl (\<lambda>color name. AList.update name WHITE color) [] (map fst g)"
  define r where "r = foldl (visit g) (color, []) (map fst g)"
  from initial_colour[of "[]" "map fst g"]
  have dom: "fst ` set color = fst ` set g" and white: "\<And>n. col color n = WHITE"
    by (auto simp: color_def col_def)
  have "col color = (\<lambda>n. WHITE)" using white by auto
  then have inv0: "searchInv g (fst ` set g) A B (col (fst (color, []))) (snd (color, [] :: string list list)) []"
    using searchInv_initial[of g "fst ` set g" A B] by simp
  have dom0: "fst ` set (fst (color, [] :: string list list)) = fst ` set g" using dom by simp
  from foldl_visit_searchInv[OF two dom0 inv0, of "map fst g"]
  have inv: "searchInv g (fst ` set g) A B (col (fst r)) (snd r) []"
    and nw: "\<forall>n \<in> fst ` set g. col (fst r) n \<noteq> WHITE"
    by (auto simp: r_def)
  from two have "A \<in> fst ` set g" "B \<in> fst ` set g" by (auto simp: twoCycleOnly_def)
  with nw have "col (fst r) A \<noteq> WHITE" "col (fst r) B \<noteq> WHITE" by auto
  moreover from inv have "col (fst r) A \<noteq> GRAY" "col (fst r) B \<noteq> GRAY" by (auto simp: searchInv_def)
  ultimately have "col (fst r) A = BLACK" "col (fst r) B = BLACK"
    by (metis colour.exhaust)+
  from searchInv_final[OF inv this] show ?thesis
    by (simp add: findCycles_def r_def color_def Let_def)
qed

lemma absStack_fst: "map fst (absStack stack) = map fst stack"
  by (simp add: absStack_def comp_def)

lemma getDeps_key: "y \<in> set (getDeps g x) \<Longrightarrow> x \<in> fst ` set g"
proof -
  assume "y \<in> set (getDeps g x)"
  then obtain deps where "map_of g x = Some deps"
    by (cases "map_of g x") (auto simp: getDeps_def)
  then have "(x, deps) \<in> set g" by (rule map_of_SomeD)
  then show ?thesis by force
qed

lemma edgeRel_keys_path:
  assumes "(y, x) \<in> (edgeRel g UNIV)\<^sup>*"
  shows "x \<in> fst ` set g \<longrightarrow> (y, x) \<in> (edgeRel g (fst ` set g))\<^sup>* \<and> y \<in> fst ` set g"
  using assms
proof (induction rule: rtrancl_induct)
  case base
  then show ?case by simp
next
  case (step z x)
  show ?case
  proof
    assume x: "x \<in> fst ` set g"
    from step.hyps(2) have zx: "x \<in> set (getDeps g z)" by (simp add: edgeRel_def)
    then have "z \<in> fst ` set g" by (rule getDeps_key)
    with step.IH have "(y, z) \<in> (edgeRel g (fst ` set g))\<^sup>*" "y \<in> fst ` set g" by auto
    moreover from zx x have "(z, x) \<in> edgeRel g (fst ` set g)" by (simp add: edgeRel_def)
    ultimately show "(y, x) \<in> (edgeRel g (fst ` set g))\<^sup>* \<and> y \<in> fst ` set g" by auto
  qed
qed

text \<open>A name that is not a key has no reference, so counting every name as live adds no cycle.\<close>

lemma twoCycleOnly_UNIV:
  assumes "twoCycleOnly g (fst ` set g) A B"
  shows "twoCycleOnly g UNIV A B"
proof -
  have "(x = A \<and> y = B) \<or> (x = B \<and> y = A)"
    if e: "(x, y) \<in> edgeRel g UNIV" and p: "(y, x) \<in> (edgeRel g UNIV)\<^sup>*" for x y
  proof -
    from e have yx: "y \<in> set (getDeps g x)" by (simp add: edgeRel_def)
    then have xk: "x \<in> fst ` set g" by (rule getDeps_key)
    with edgeRel_keys_path[OF p] have "(y, x) \<in> (edgeRel g (fst ` set g))\<^sup>*" "y \<in> fst ` set g"
      by auto
    moreover with yx have "(x, y) \<in> edgeRel g (fst ` set g)" by (simp add: edgeRel_def)
    ultimately show ?thesis using assms by (auto simp: twoCycleOnly_def)
  qed
  with assms show ?thesis by (auto simp: twoCycleOnly_def)
qed

lemma col_ensure: "col (ensureColour color dep) = col color"
  by (auto simp: ensureColour_def col_def fun_eq_iff update_conv')

lemma map_of_ensure: "map_of (ensureColour color dep) dep = Some (col color dep)"
  by (cases "map_of color dep") (auto simp: ensureColour_def col_def update_conv')

lemma keys_update_prefix: "\<exists>ext. map fst (AList.update k v color) = map fst color @ ext"
  by (simp add: update_keys)

lemma keys_ensure_prefix: "\<exists>ext. map fst (ensureColour color dep) = map fst color @ ext"
  by (simp add: ensureColour_def update_keys)

lemma distinct_ensure: "distinct (map fst color) \<Longrightarrow> distinct (map fst (ensureColour color dep))"
  by (simp add: ensureColour_def distinct_update)

lemma searchDone_step:
  assumes "searchDone g A B color' r"
    and "\<And>n. col color n \<noteq> WHITE \<Longrightarrow> col color' n \<noteq> WHITE"
    and "distinct (map fst color) \<Longrightarrow> distinct (map fst color')"
    and "\<exists>ext. map fst color' = map fst color @ ext"
  shows "searchDone g A B color r"
  using assms unfolding searchDone_def by (metis append.assoc)

lemma dfsLoop_sync_searchInv:
  "twoCycleOnly g UNIV A B \<Longrightarrow> searchInv g UNIV A B (col color) cycles (absStack stack) \<Longrightarrow> pathsOK stack \<Longrightarrow>
   searchDone g A B color (dfsLoop_sync g color cycles stack)"
proof (induction g color cycles stack rule: dfsLoop_sync.induct)
  case (1 g color cycles)
  then show ?case by (simp add: dfsLoop_sync.simps searchDone_def absStack_def)
next
  case (2 g color cycles node path edgeIdx stack)
  note two = "2.prems"(1)
  have inv: "searchInv g UNIV A B (col color) cycles ((node, edgeIdx) # absStack stack)"
    using "2.prems"(2) by (simp add: absStack_def)
  have path: "path = rev (map fst ((node, edgeIdx) # absStack stack))"
    using "2.prems"(3) by (simp add: absStack_fst)
  have ok: "pathsOK stack" using "2.prems"(3) by simp
  define deps where "deps = getDeps g node"
  show ?case
  proof (cases "edgeIdx \<ge> length deps")
    case True
    have step: "dfsLoop_sync g color cycles ((node, path, edgeIdx) # stack)
        = dfsLoop_sync g (AList.update node BLACK color) cycles stack"
      using True by (simp add: dfsLoop_sync.simps(2) deps_def)
    have "searchInv g UNIV A B (col (AList.update node BLACK color)) cycles (absStack stack)"
      using searchInv_pop[OF two inv] True by (simp add: col_update deps_def)
    from "2.IH"(1)[OF deps_def True two this ok]
    have "searchDone g A B (AList.update node BLACK color)
        (dfsLoop_sync g (AList.update node BLACK color) cycles stack)" .
    then show ?thesis unfolding step
      by (rule searchDone_step) (simp_all add: col_update distinct_update update_keys)
  next
    case False
    define dep where "dep = deps ! edgeIdx"
    define color1 where "color1 = ensureColour color dep"
    from False have lt: "edgeIdx < length (getDeps g node)" by (simp add: deps_def)
    have d: "getDeps g node ! edgeIdx = dep" by (simp add: dep_def deps_def)
    have c1: "col color1 = col color" by (simp add: color1_def col_ensure)
    have m1: "map_of color1 dep = Some (col color dep)" by (simp add: color1_def map_of_ensure)
    have mono1: "\<And>n. col color n \<noteq> WHITE \<Longrightarrow> col color1 n \<noteq> WHITE" by (simp add: c1)
    have dist1: "distinct (map fst color) \<Longrightarrow> distinct (map fst color1)"
      by (simp add: color1_def distinct_ensure)
    have pre1: "\<exists>ext. map fst color1 = map fst color @ ext"
      by (simp add: color1_def keys_ensure_prefix)
    have ok1: "pathsOK ((node, path, Suc edgeIdx) # stack)" using "2.prems"(3) by simp
    show ?thesis
    proof (cases "col color dep")
      case GRAY
      have step: "dfsLoop_sync g color cycles ((node, path, edgeIdx) # stack)
          = dfsLoop_sync g color1 (cycles @ [sliceFrom path (indexOf path dep) @ [dep]])
              ((node, path, Suc edgeIdx) # stack)"
        using False GRAY m1
        by (simp add: dfsLoop_sync.simps(2) deps_def[symmetric] dep_def[symmetric] color1_def[symmetric] Let_def)
      have g1: "map_of color1 dep = Some GRAY" using m1 GRAY by simp
      have "searchInv g UNIV A B (col color1) (cycles @ [sliceFrom path (indexOf path dep) @ [dep]])
          (absStack ((node, path, Suc edgeIdx) # stack))"
        using searchInv_report[OF two inv lt d _ GRAY path] by (simp add: c1 absStack_def)
      from "2.IH"(2)[OF deps_def False dep_def color1_def g1 two this ok1]
      have "searchDone g A B color1 (dfsLoop_sync g color1 (cycles @ [sliceFrom path (indexOf path dep) @ [dep]])
              ((node, path, Suc edgeIdx) # stack))" .
      then show ?thesis unfolding step
        by (rule searchDone_step) (use mono1 dist1 pre1 in auto)
    next
      case WHITE
      have ng: "map_of color1 dep \<noteq> Some GRAY" and w1: "map_of color1 dep = Some WHITE"
        using m1 WHITE by simp_all
      have step: "dfsLoop_sync g color cycles ((node, path, edgeIdx) # stack)
          = dfsLoop_sync g (AList.update dep GRAY color1) cycles
              ((dep, path @ [dep], 0) # (node, path, Suc edgeIdx) # stack)"
        using False WHITE m1
        by (simp add: dfsLoop_sync.simps(2) deps_def[symmetric] dep_def[symmetric] color1_def[symmetric] Let_def)
      have "searchInv g UNIV A B ((col color)(dep := GRAY)) cycles
          ((dep, 0) # (node, Suc edgeIdx) # absStack stack)"
        by (rule searchInv_push[OF two inv lt d _ WHITE]) simp
      then have i2: "searchInv g UNIV A B (col (AList.update dep GRAY color1)) cycles
          (absStack ((dep, path @ [dep], 0) # (node, path, Suc edgeIdx) # stack))"
        by (simp add: col_update c1 absStack_def)
      have ok2: "pathsOK ((dep, path @ [dep], 0) # (node, path, Suc edgeIdx) # stack)"
        using "2.prems"(3) by simp
      from "2.IH"(3)[OF deps_def False dep_def color1_def ng w1 two i2 ok2]
      have "searchDone g A B (AList.update dep GRAY color1)
          (dfsLoop_sync g (AList.update dep GRAY color1) cycles
              ((dep, path @ [dep], 0) # (node, path, Suc edgeIdx) # stack))" .
      then have "searchDone g A B color1
          (dfsLoop_sync g (AList.update dep GRAY color1) cycles
              ((dep, path @ [dep], 0) # (node, path, Suc edgeIdx) # stack))"
        by (rule searchDone_step) (simp_all add: col_update distinct_update update_keys)
      then show ?thesis unfolding step
        by (rule searchDone_step) (use mono1 dist1 pre1 in auto)
    next
      case BLACK
      have ng: "map_of color1 dep \<noteq> Some GRAY" and nw: "map_of color1 dep \<noteq> Some WHITE"
        using m1 BLACK by simp_all
      have step: "dfsLoop_sync g color cycles ((node, path, edgeIdx) # stack)
          = dfsLoop_sync g color1 cycles ((node, path, Suc edgeIdx) # stack)"
        using False BLACK m1
        by (simp add: dfsLoop_sync.simps(2) deps_def[symmetric] dep_def[symmetric] color1_def[symmetric] Let_def)
      have "searchInv g UNIV A B (col color1) cycles (absStack ((node, path, Suc edgeIdx) # stack))"
        using searchInv_skip[OF two inv lt d] BLACK by (simp add: c1 absStack_def)
      from "2.IH"(4)[OF deps_def False dep_def color1_def ng nw two this ok1]
      have "searchDone g A B color1 (dfsLoop_sync g color1 cycles ((node, path, Suc edgeIdx) # stack))" .
      then show ?thesis unfolding step
        by (rule searchDone_step) (use mono1 dist1 pre1 in auto)
    qed
  qed
qed

lemma entry_colour:
  "distinct (map fst color) \<Longrightarrow> j < length color \<Longrightarrow> col color (fst (color ! j)) = snd (color ! j)"
proof -
  assume d: "distinct (map fst color)" and j: "j < length color"
  then have "(fst (color ! j), snd (color ! j)) \<in> set color" by simp
  with d have "map_of color (fst (color ! j)) = Some (snd (color ! j))" by simp
  then show ?thesis by (rule col_Some)
qed

lemma dfs_sync_searchInv:
  assumes two: "twoCycleOnly g UNIV A B" and inv: "searchInv g UNIV A B (col color) cycles []"
    and w: "col color start = WHITE"
  shows "searchDone g A B color (dfs_sync g color cycles start)
       \<and> col (fst (dfs_sync g color cycles start)) start \<noteq> WHITE"
proof -
  have i2: "searchInv g UNIV A B (col (AList.update start GRAY color)) cycles
      (absStack [(start, [start], 0)])"
    using searchInv_start[OF inv w] by (simp add: col_update absStack_def)
  have ok: "pathsOK [(start, [start], 0)]" by simp
  from dfsLoop_sync_searchInv[OF two i2 ok]
  have fin: "searchDone g A B (AList.update start GRAY color) (dfs_sync g color cycles start)"
    by (simp add: dfs_sync_def)
  then have "col (fst (dfs_sync g color cycles start)) start \<noteq> WHITE"
    by (simp add: searchDone_def col_update)
  moreover from fin have "searchDone g A B color (dfs_sync g color cycles start)"
    by (rule searchDone_step) (simp_all add: col_update distinct_update update_keys)
  ultimately show ?thesis by simp
qed

text \<open>
  The loop over the entries of the colour map, from entry \<open>i\<close> on: at its end every name
  that had an entry at \<open>i\<close> or later is coloured, and no name has turned white.
\<close>

lemma visitFrom_sync_searchInv:
  "twoCycleOnly g UNIV A B \<Longrightarrow> searchInv g UNIV A B (col color) cycles [] \<Longrightarrow> distinct (map fst color) \<Longrightarrow>
   searchInv g UNIV A B (col (fst (visitFrom_sync g i color cycles))) (snd (visitFrom_sync g i color cycles)) []
   \<and> (\<forall>n. col color n \<noteq> WHITE \<longrightarrow> col (fst (visitFrom_sync g i color cycles)) n \<noteq> WHITE)
   \<and> (\<forall>j. i \<le> j \<and> j < length color \<longrightarrow> col (fst (visitFrom_sync g i color cycles)) (fst (color ! j)) \<noteq> WHITE)"
proof (induction g i color cycles rule: visitFrom_sync.induct)
  case (1 g i color cycles)
  note two = "1.prems"(1) and inv = "1.prems"(2) and dist = "1.prems"(3)
  show ?case
  proof (cases "i < length color")
    case False
    with inv show ?thesis by (auto simp: visitFrom_sync.simps)
  next
    case True
    show ?thesis
    proof (cases "snd (color ! i) = WHITE")
      case w: True
      obtain color' cycles' where r: "dfs_sync g color cycles (fst (color ! i)) = (color', cycles')"
        by (cases "dfs_sync g color cycles (fst (color ! i))") auto
      have step: "visitFrom_sync g i color cycles = visitFrom_sync g (Suc i) color' cycles'"
        using True w r by (simp add: visitFrom_sync.simps[of g i color cycles])
      have cw: "col color (fst (color ! i)) = WHITE" using entry_colour[OF dist True] w by simp
      from dfs_sync_searchInv[OF two inv cw] r
      have fin: "searchDone g A B color (color', cycles')" and here: "col color' (fst (color ! i)) \<noteq> WHITE"
        by auto
      from fin have inv': "searchInv g UNIV A B (col color') cycles' []"
        and mono: "\<And>n. col color n \<noteq> WHITE \<Longrightarrow> col color' n \<noteq> WHITE"
        and dist': "distinct (map fst color')"
        and pre: "\<exists>ext. map fst color' = map fst color @ ext"
        using dist by (auto simp: searchDone_def)
      from "1.IH"(1)[OF True w r[symmetric] two inv' dist']
      have ih: "searchInv g UNIV A B (col (fst (visitFrom_sync g (Suc i) color' cycles')))
            (snd (visitFrom_sync g (Suc i) color' cycles')) []"
        and ihm: "\<And>n. col color' n \<noteq> WHITE \<Longrightarrow> col (fst (visitFrom_sync g (Suc i) color' cycles')) n \<noteq> WHITE"
        and ihj: "\<And>j. Suc i \<le> j \<Longrightarrow> j < length color' \<Longrightarrow>
            col (fst (visitFrom_sync g (Suc i) color' cycles')) (fst (color' ! j)) \<noteq> WHITE"
        by auto
      have later: "col (fst (visitFrom_sync g (Suc i) color' cycles')) (fst (color ! j)) \<noteq> WHITE"
        if "i \<le> j" "j < length color" for j
      proof (cases "j = i")
        case True
        with here ihm show ?thesis by simp
      next
        case False
        from pre obtain ext where ext: "map fst color' = map fst color @ ext" by blast
        then have "length color \<le> length color'" by (metis length_append length_map le_add1)
        with that have j': "j < length color'" by simp
        have "fst (color' ! j) = map fst color' ! j" using j' by simp
        also have "\<dots> = map fst color ! j" using ext that by (simp add: nth_append)
        also have "\<dots> = fst (color ! j)" using that by simp
        finally have "fst (color' ! j) = fst (color ! j)" .
        with ihj[of j] that False j' show ?thesis by simp
      qed
      from ih ihm mono later show ?thesis unfolding step by blast
    next
      case nw: False
      have step: "visitFrom_sync g i color cycles = visitFrom_sync g (Suc i) color cycles"
        using True nw by (simp add: visitFrom_sync.simps[of g i color cycles])
      from "1.IH"(2)[OF True nw two inv dist]
      have ih: "searchInv g UNIV A B (col (fst (visitFrom_sync g (Suc i) color cycles)))
            (snd (visitFrom_sync g (Suc i) color cycles)) []"
        and ihm: "\<And>n. col color n \<noteq> WHITE \<Longrightarrow> col (fst (visitFrom_sync g (Suc i) color cycles)) n \<noteq> WHITE"
        and ihj: "\<And>j. Suc i \<le> j \<Longrightarrow> j < length color \<Longrightarrow>
            col (fst (visitFrom_sync g (Suc i) color cycles)) (fst (color ! j)) \<noteq> WHITE"
        by auto
      have "col color (fst (color ! i)) \<noteq> WHITE" using entry_colour[OF dist True] nw by simp
      then have here: "col (fst (visitFrom_sync g (Suc i) color cycles)) (fst (color ! i)) \<noteq> WHITE"
        by (rule ihm)
      have later: "col (fst (visitFrom_sync g (Suc i) color cycles)) (fst (color ! j)) \<noteq> WHITE"
        if "i \<le> j" "j < length color" for j
        using that here ihj[of j] by (cases "j = i") auto
      from ih ihm later show ?thesis unfolding step by blast
    qed
  qed
qed

lemma distinct_initial_colour:
  "distinct (map fst acc) \<Longrightarrow> distinct (map fst (foldl (\<lambda>color name. AList.update name WHITE color) acc names))"
  by (induction names arbitrary: acc) (auto simp: distinct_update)

text \<open>The sync scripts' detector on a graph whose only cycle joins \<open>A\<close> and \<open>B\<close>.\<close>

lemma findCycles_sync_twoCycle:
  assumes two: "twoCycleOnly g (fst ` set g) A B"
  shows "findCycles_sync g = [[A, B, A]] \<or> findCycles_sync g = [[B, A, B]]"
proof -
  define color where "color = foldl (\<lambda>color node. AList.update node WHITE color) [] (map fst g)"
  define r where "r = visitFrom_sync g 0 color []"
  note twoU = twoCycleOnly_UNIV[OF two]
  from initial_colour[of "[]" "map fst g"]
  have dom: "fst ` set color = fst ` set g" and white: "\<And>n. col color n = WHITE"
    by (auto simp: color_def col_def)
  have "col color = (\<lambda>n. WHITE)" using white by auto
  then have inv0: "searchInv g UNIV A B (col color) [] []"
    using searchInv_initial[of g UNIV A B] by simp
  have dist: "distinct (map fst color)"
    unfolding color_def by (rule distinct_initial_colour) simp
  from visitFrom_sync_searchInv[OF twoU inv0 dist, of 0]
  have inv: "searchInv g UNIV A B (col (fst r)) (snd r) []"
    and all: "\<And>j. j < length color \<Longrightarrow> col (fst r) (fst (color ! j)) \<noteq> WHITE"
    by (auto simp: r_def)
  have nw: "col (fst r) n \<noteq> WHITE" if "n \<in> fst ` set g" for n
  proof -
    from that dom have "n \<in> set (map fst color)" by simp
    then obtain j where "j < length color" "fst (color ! j) = n"
      by (metis in_set_conv_nth length_map nth_map)
    with all[of j] show ?thesis by simp
  qed
  from two have "A \<in> fst ` set g" "B \<in> fst ` set g" by (auto simp: twoCycleOnly_def)
  with nw have "col (fst r) A \<noteq> WHITE" "col (fst r) B \<noteq> WHITE" by auto
  moreover from inv have "col (fst r) A \<noteq> GRAY" "col (fst r) B \<noteq> GRAY" by (auto simp: searchInv_def)
  ultimately have "col (fst r) A = BLACK" "col (fst r) B = BLACK"
    by (metis colour.exhaust)+
  from searchInv_final[OF inv this] show ?thesis
    by (simp add: findCycles_sync_def r_def color_def Let_def)
qed

text \<open>
  C1. For every dependency graph in which \<open>A\<close> references \<open>B\<close> once, \<open>B\<close>
  references \<open>A\<close> once and no other reference lies on a cycle, the validator's detector
  and the sync scripts' detector each return exactly one cycle, \<open>[A, B, A]\<close> or
  \<open>[B, A, B]\<close>, whatever the order of the keys and whatever else the graph holds.
\<close>

theorem two_cycle_reported_once:
  assumes "twoCycleOnly g (fst ` set g) A B"
  shows "(findCycles g = [[A, B, A]] \<or> findCycles g = [[B, A, B]])
       \<and> (findCycles_sync g = [[A, B, A]] \<or> findCycles_sync g = [[B, A, B]])"
  using findCycles_twoCycle[OF assms] findCycles_sync_twoCycle[OF assms] by simp

theorem two_cycle_reported_once_witness:
  "(findCycles [(''--c'', [''--a'']), (''--a'', [''--b'']), (''--b'', [''--a''])]
      = [[''--a'', ''--b'', ''--a'']]
    \<or> findCycles [(''--c'', [''--a'']), (''--a'', [''--b'']), (''--b'', [''--a''])]
      = [[''--b'', ''--a'', ''--b'']])
   \<and> (findCycles_sync [(''--c'', [''--a'']), (''--a'', [''--b'']), (''--b'', [''--a''])]
      = [[''--a'', ''--b'', ''--a'']]
    \<or> findCycles_sync [(''--c'', [''--a'']), (''--a'', [''--b'']), (''--b'', [''--a''])]
      = [[''--b'', ''--a'', ''--b'']])"
proof -
  let ?g = "[(''--c'', [''--a'']), (''--a'', [''--b'']), (''--b'', [''--a''])]"
  let ?E = "edgeRel ?g (fst ` set ?g)"
  have edges: "(x, y) \<in> ?E \<Longrightarrow> (x, y) \<in> {(''--c'', ''--a''), (''--a'', ''--b''), (''--b'', ''--a'')}" for x y
    by (auto simp: edgeRel_def getDeps_def split: if_splits)
  have reach: "(y, x) \<in> ?E\<^sup>* \<Longrightarrow> x = y \<or> x \<in> {''--a'', ''--b''}" for x y
  proof (induction rule: rtrancl_induct)
    case base
    then show ?case by simp
  next
    case (step z x)
    from edges[OF step.hyps(2)] show ?case by auto
  qed
  have only: "(x = ''--a'' \<and> y = ''--b'') \<or> (x = ''--b'' \<and> y = ''--a'')"
    if "(x, y) \<in> ?E" "(y, x) \<in> ?E\<^sup>*" for x y
    using edges[OF that(1)] reach[OF that(2)] by auto
  have "twoCycleOnly ?g (fst ` set ?g) ''--a'' ''--b''"
    unfolding twoCycleOnly_def using only by (simp add: getDeps_def)
  from two_cycle_reported_once[OF this] show ?thesis .
qed

text \<open>
  Where a reference list names the other token twice, one cycle can come back twice: for
  the root scope \<^verbatim>\<open>--a: var(--b);\<close> \<^verbatim>\<open>--b: calc(var(--a) + var(--a));\<close> the graph still holds
  the one cycle between the two tokens, and the validator's detector returns it twice.
\<close>

theorem two_cycle_reported_twice:
  "buildGraph (tokenDefs (parseCSS ('':root {'' @ [CHR 0x0A] @ ''  --a: var(--b);'' @ [CHR 0x0A]
        @ ''  --b: calc(var(--a) + var(--a));'' @ [CHR 0x0A] @ ''}'')))
     = [(''--a'', [''--b'']), (''--b'', [''--a'', ''--a''])]
   \<and> findCycles [(''--a'', [''--b'']), (''--b'', [''--a'', ''--a''])]
     = [[''--a'', ''--b'', ''--a''], [''--a'', ''--b'', ''--a'']]"
  by code_simp

end
